theory Spec2Isabelle
  imports Complex_Main
begin

section \<open>Python values: exceptions and binary64 floats\<close>

text \<open>
  The notebook is Python 3 on top of numpy and networkx. Every exception that the four
  functions of the core can raise, directly or inside a library call, is a value of
  \<open>error\<close>; a function that may raise returns \<open>error + 'a\<close>.
\<close>

datatype error = ZeroDivisionError | OverflowError | ValueError | IndexError | NetworkXError

text \<open>
  Python's \<open>/\<close> on two ints is true division: the result is the binary64 float nearest to
  the exact quotient (ties to even). A finite float is modelled by the rational it denotes;
  \<open>fl\<close> rounds a rational to the nearest binary64 value (53 significant bits, least
  exponent \<open>-1074\<close>), and an operation whose rounded result reaches \<open>2 ^ 1024\<close> overflows.
\<close>

fun bit_length :: "nat \<Rightarrow> nat" where
  "bit_length n = (if n = 0 then 0 else Suc (bit_length (n div 2)))"

declare bit_length.simps [simp del]

definition pow2 :: "int \<Rightarrow> rat" where
  "pow2 k = (if 0 \<le> k then 2 ^ nat k else 1 / 2 ^ nat (- k))"

definition ilog2 :: "rat \<Rightarrow> int" where
  "ilog2 x =
     (let pq = quotient_of \<bar>x\<bar>;
          k = int (bit_length (nat (fst pq))) - int (bit_length (nat (snd pq)))
      in if pow2 k \<le> \<bar>x\<bar> then k else k - 1)"

definition round_half_even :: "rat \<Rightarrow> int" where
  "round_half_even x =
     (let f = \<lfloor>x\<rfloor>; d = x - of_int f
      in if d < 1 / 2 then f
         else if 1 / 2 < d then f + 1
         else if even f then f else f + 1)"

definition fl :: "rat \<Rightarrow> rat" where
  "fl x =
     (if x = 0 then 0
      else let e = max (ilog2 x - 52) (- 1074)
           in of_int (round_half_even (x / pow2 e)) * pow2 e)"

definition finite_float :: "rat \<Rightarrow> error + rat" where
  "finite_float x = (if 2 ^ 1024 \<le> \<bar>fl x\<bar> then Inl OverflowError else Inr (fl x))"

text \<open>\<open>a / b\<close> on Python ints: ZeroDivisionError, or the correctly rounded quotient.\<close>

definition int_truediv :: "int \<Rightarrow> int \<Rightarrow> error + rat" where
  "int_truediv a b =
     (if b = 0 then Inl ZeroDivisionError else finite_float (of_int a / of_int b))"

text \<open>\<open>float(a)\<close> for a Python int, as the mixed int/float operators convert it.\<close>

definition float_of_int :: "int \<Rightarrow> error + rat" where
  "float_of_int a = finite_float (of_int a)"

text \<open>
  \<open>a ** n\<close> for Python ints with \<open>n < 0\<close>: both are converted to float and the power is
  taken there; a zero base raises ZeroDivisionError. The power is taken as correctly
  rounded (it is exact whenever the true power is a binary64 value). CPython takes the
  power with the \<open>pow\<close> of the C library, which may be one unit in the last place away
  from the correctly rounded value when the power is not a binary64 value (for
  \<open>147 ** -3\<close>, say). The results below use a negative power only where it is exact
  (the bases 1 and 2), or only through the exceptions that it raises and the bound
  \<open>|a ** n| \<le> 2\<close>, which hold for either rounding.
\<close>

definition int_pow_negative :: "int \<Rightarrow> int \<Rightarrow> error + rat" where
  "int_pow_negative a n =
     (case float_of_int a of Inl e \<Rightarrow> Inl e
      | Inr x \<Rightarrow>
         (case float_of_int n of Inl e \<Rightarrow> Inl e
          | Inr y \<Rightarrow>
             if x = 0 then Inl ZeroDivisionError
             else Inr (fl (1 / x ^ nat (- \<lfloor>y\<rfloor>)))))"

text \<open>\<open>x / b\<close> for a float \<open>x\<close> and a Python int \<open>b\<close>.\<close>

definition float_truediv_int :: "rat \<Rightarrow> int \<Rightarrow> error + rat" where
  "float_truediv_int x b =
     (case float_of_int b of Inl e \<Rightarrow> Inl e
      | Inr y \<Rightarrow> if y = 0 then Inl ZeroDivisionError else Inr (fl (x / y)))"

text \<open>\<open>int(x)\<close> for a finite float: truncation toward zero.\<close>

definition int_of_float :: "rat \<Rightarrow> int" where
  "int_of_float x = (if 0 \<le> x then \<lfloor>x\<rfloor> else \<lceil>x\<rceil>)"

section \<open>The vertex-count formulas\<close>

text \<open>
  \<^verbatim>\<open>def comp_slash_power_verts(initial_vertices, initial_edges, iteration_number):
    return int(2 + (initial_vertices - 2) * (initial_edges**iteration_number - 1)/(initial_edges - 1))\<close>

  \<open>*\<close> and \<open>/\<close> associate to the left, so the product is divided. With a non-negative
  exponent the power and the product are exact ints and the only float operations are the
  true division and the addition of 2. With a negative exponent the power is already a
  float and every later operation is a float operation; a product that overflows becomes
  an infinity, which the division and the addition keep and \<open>int\<close> rejects with
  OverflowError, after the errors that the division raises itself.
\<close>

definition comp_slash_power_verts :: "int \<Rightarrow> int \<Rightarrow> int \<Rightarrow> error + int" where
  "comp_slash_power_verts initial_vertices initial_edges iteration_number =
     (if 0 \<le> iteration_number then
        (case int_truediv ((initial_vertices - 2) * (initial_edges ^ nat iteration_number - 1))
                (initial_edges - 1) of
           Inl e \<Rightarrow> Inl e
         | Inr q \<Rightarrow> Inr (int_of_float (fl (2 + q))))
      else
        (case int_pow_negative initial_edges iteration_number of
           Inl e \<Rightarrow> Inl e
         | Inr p \<Rightarrow>
            (case float_of_int (initial_vertices - 2) of
               Inl e \<Rightarrow> Inl e
             | Inr v \<Rightarrow>
                (case float_truediv_int (fl (v * fl (p - 1))) (initial_edges - 1) of
                   Inl e \<Rightarrow> Inl e
                 | Inr q \<Rightarrow>
                    if 2 ^ 1024 \<le> \<bar>fl (v * fl (p - 1))\<bar> then Inl OverflowError
                    else Inr (int_of_float (fl (2 + q)))))))"

text \<open>
  The closed form that \<open>comp_slash_power_verts\<close> is meant to evaluate, as the
  specification writes it and in exact rational arithmetic. It is not part of the code;
  the results compare the code with it.
\<close>

definition closed_form :: "int \<Rightarrow> int \<Rightarrow> int \<Rightarrow> rat" where
  "closed_form initial_vertices initial_edges iteration =
     2 + (of_int initial_vertices - 2) * (of_int initial_edges powi iteration - 1) /
           (of_int initial_edges - 1)"

text \<open>
  \<^verbatim>\<open>def comp_slash_verts(G_verts, G_edges, H_verts, H_edges):
    return G_verts + G_edges*(H_verts - 2)\<close>
\<close>

definition comp_slash_verts :: "int \<Rightarrow> int \<Rightarrow> int \<Rightarrow> int \<Rightarrow> int" where
  "comp_slash_verts G_verts G_edges H_verts H_edges = G_verts + G_edges * (H_verts - 2)"

section \<open>Matrices and graphs\<close>

text \<open>
  A numpy 2-d array is the list of its rows; entries are the edge weights (0 and 1 for an
  unweighted graph). They are only copied and compared with zero.
\<close>

type_synonym matrix = "int list list"

definition square :: "matrix \<Rightarrow> bool" where
  "square A = (\<forall>r \<in> set A. length r = length A)"

definition symmetric :: "matrix \<Rightarrow> bool" where
  "symmetric A = (\<forall>i \<in> {0..<length A}. \<forall>j \<in> {0..<length A}. A ! i ! j = A ! j ! i)"

definition zero_diagonal :: "matrix \<Rightarrow> bool" where
  "zero_diagonal A = (\<forall>i \<in> {0..<length A}. A ! i ! i = 0)"

definition zero_one :: "matrix \<Rightarrow> bool" where
  "zero_one A = (\<forall>r \<in> set A. \<forall>x \<in> set r. x = 0 \<or> x = 1)"

text \<open>
  A networkx \<open>Graph\<close> whose nodes are \<open>0 .. n-1\<close>: the number of nodes and the edges with
  their weights, in the order in which \<open>G.edges\<close> reports them.
\<close>

datatype graph = Graph (number_of_nodes: nat) (edge_data: "((nat \<times> nat) \<times> int) list")

definition edges :: "graph \<Rightarrow> (nat \<times> nat) list" where
  "edges G = map fst (edge_data G)"

text \<open>
  \<open>nx.from_numpy_array(A)\<close> refuses a matrix that is not square, adds the nodes
  \<open>0 .. n-1\<close> and then one edge for every nonzero entry, row by row. Adding \<open>(u, v)\<close>
  a second time keeps the position of the edge and overwrites its weight. \<open>G.edges\<close>
  visits the nodes in order and reports, for node \<open>u\<close>, its neighbours that are not yet
  visited, in the order in which they became neighbours: first the \<open>v \<ge> u\<close> with
  \<open>A[u][v] \<noteq> 0\<close> (row \<open>u\<close>), then the \<open>v > u\<close> known only from \<open>A[v][u] \<noteq> 0\<close>
  (a later row). The weight is the one written last, \<open>A[v][u]\<close> if it is nonzero.
\<close>

definition neighbours_from :: "matrix \<Rightarrow> nat \<Rightarrow> nat list" where
  "neighbours_from A u =
     filter (\<lambda>v. A ! u ! v \<noteq> 0) [u..<length A] @
     filter (\<lambda>v. A ! u ! v = 0 \<and> A ! v ! u \<noteq> 0) [Suc u..<length A]"

definition edge_weight :: "matrix \<Rightarrow> nat \<Rightarrow> nat \<Rightarrow> int" where
  "edge_weight A u v = (if A ! v ! u \<noteq> 0 then A ! v ! u else A ! u ! v)"

definition from_numpy_array :: "matrix \<Rightarrow> error + graph" where
  "from_numpy_array A =
     (if \<not> square A then Inl NetworkXError
      else Inr (Graph (length A)
             (concat (map (\<lambda>u. map (\<lambda>v. ((u, v), edge_weight A u v)) (neighbours_from A u))
                        [0..<length A]))))"

text \<open>
  \<^verbatim>\<open>def create_graph(adj_matr):
    return nx.from_numpy_array(adj_matr)\<close>
\<close>

definition create_graph :: "matrix \<Rightarrow> error + graph" where
  "create_graph adj_matr = from_numpy_array adj_matr"

text \<open>
  \<open>nx.to_numpy_array(G)\<close>: the \<open>n \<times> n\<close> matrix of the edge weights, 0 where there is no
  edge; an edge counts for both of its orientations. networkx returns the weights as
  float64; they are kept here as the ints they are, which is the same matrix for the
  weights 0 and 1 of every graph considered below.
\<close>

definition weight_of :: "graph \<Rightarrow> nat \<Rightarrow> nat \<Rightarrow> int" where
  "weight_of G i j =
     (case find (\<lambda>e. fst e = (i, j) \<or> fst e = (j, i)) (edge_data G) of
        None \<Rightarrow> 0
      | Some e \<Rightarrow> snd e)"

definition to_numpy_array :: "graph \<Rightarrow> matrix" where
  "to_numpy_array G =
     map (\<lambda>i. map (\<lambda>j. weight_of G i j) [0..<number_of_nodes G]) [0..<number_of_nodes G]"

text \<open>
  \<open>np.zeros([n, n])\<close>: a negative dimension raises ValueError. numpy also refuses a
  matrix that does not fit into memory (\<open>8 * n * n\<close> bytes), which is not modelled: a
  result of the form "the call returns a graph with property P" is then to be read as
  "if memory suffices, the call returns a graph with property P", and no result below
  rests on a matrix that numpy could not allocate.
\<close>

definition zeros :: "int \<Rightarrow> error + matrix" where
  "zeros n = (if n < 0 then Inl ValueError else Inr (replicate (nat n) (replicate (nat n) 0)))"

text \<open>
  \<open>A[np.ix_(b, b)] = M\<close> writes \<open>M[i][j]\<close> to \<open>A[b[i]][b[j]]\<close> for all positions
  \<open>i\<close>, \<open>j\<close> of \<open>b\<close>, row by row, so that where an index occurs twice in \<open>b\<close> its last
  position decides. \<open>M\<close> is broadcast to the shape \<open>(len b, len b)\<close>: a dimension of
  length 1 is repeated, any other mismatch raises ValueError; an index outside \<open>A\<close>
  raises IndexError. numpy broadcasts the value before it checks the indices.
\<close>

definition shape :: "matrix \<Rightarrow> nat \<times> nat" where
  "shape M = (length M, if M = [] then 0 else length (hd M))"

definition broadcastable :: "matrix \<Rightarrow> nat \<Rightarrow> bool" where
  "broadcastable M l =
     ((fst (shape M) = 1 \<or> fst (shape M) = l) \<and> (snd (shape M) = 1 \<or> snd (shape M) = l))"

definition broadcast_entry :: "matrix \<Rightarrow> nat \<Rightarrow> nat \<Rightarrow> int" where
  "broadcast_entry M i j =
     M ! (if fst (shape M) = 1 then 0 else i) ! (if snd (shape M) = 1 then 0 else j)"

definition last_position :: "nat list \<Rightarrow> nat \<Rightarrow> nat option" where
  "last_position b x = find (\<lambda>i. b ! i = x) (rev [0..<length b])"

definition ix_assign :: "matrix \<Rightarrow> nat list \<Rightarrow> matrix \<Rightarrow> error + matrix" where
  "ix_assign A b M =
     (if \<not> broadcastable M (length b) then Inl ValueError
      else if \<exists>x \<in> set b. length A \<le> x then Inl IndexError
      else Inr (map (\<lambda>x. map (\<lambda>y.
                   (case last_position b x of
                      None \<Rightarrow> A ! x ! y
                    | Some i \<Rightarrow>
                       (case last_position b y of
                          None \<Rightarrow> A ! x ! y
                        | Some j \<Rightarrow> broadcast_entry M i j)))
                 [0..<length (A ! x)]) [0..<length A]))"

section \<open>The slash product\<close>

text \<open>
  The body of the loop over \<open>G_edges\<close>: the edge is put in increasing order, the block
  is the first endpoint, the next \<open>H_verts\<close> unused labels (Python's
  \<open>range(start_index, start_index + H_verts)\<close>, empty when \<open>H_verts \<le> 0\<close>) and the
  second endpoint; \<open>start_index\<close> moves past the labels taken.
\<close>

definition ordered_edge :: "nat \<times> nat \<Rightarrow> nat \<times> nat" where
  "ordered_edge edge = (if fst edge > snd edge then (snd edge, fst edge) else edge)"

definition fresh_labels :: "nat \<Rightarrow> int \<Rightarrow> nat list" where
  "fresh_labels start_index H_verts = [start_index..<nat (int start_index + H_verts)]"

definition block_indices :: "nat \<times> nat \<Rightarrow> nat \<Rightarrow> int \<Rightarrow> nat list" where
  "block_indices edge start_index H_verts =
     [fst (ordered_edge edge)] @ fresh_labels start_index H_verts @ [snd (ordered_edge edge)]"

fun slash_loop :: "(nat \<times> nat) list \<Rightarrow> int \<Rightarrow> matrix \<Rightarrow> nat \<Rightarrow> matrix \<Rightarrow> error + matrix" where
  "slash_loop [] H_verts H_adj_matr start_index A = Inr A"
| "slash_loop (edge # G_edges) H_verts H_adj_matr start_index A =
     (case ix_assign A (block_indices edge start_index H_verts) H_adj_matr of
        Inl e \<Rightarrow> Inl e
      | Inr A' \<Rightarrow>
          slash_loop G_edges H_verts H_adj_matr
            (start_index + length (fresh_labels start_index H_verts)) A')"

text \<open>
  \<^verbatim>\<open>def slash_H_into_G(G, H):
    G_edges = list(G.edges)
    G_verts = G.number_of_nodes()
    H_adj_matr = nx.to_numpy_array(H)
    H_verts = H.number_of_nodes() - 2
    num_verts = comp_slash_verts(G_verts, len(G_edges), H_verts + 2, len(list(H.edges)))
    A = np.zeros([num_verts, num_verts])
    start_index = G.number_of_nodes()
    for edge in G_edges: ...
    slash_product = nx.from_numpy_array(A)
    return slash_product\<close>
\<close>

definition slash_H_into_G :: "graph \<Rightarrow> graph \<Rightarrow> error + graph" where
  "slash_H_into_G G H =
     (let G_edges = edges G;
          G_verts = number_of_nodes G;
          H_adj_matr = to_numpy_array H;
          H_verts = int (number_of_nodes H) - 2;
          num_verts = comp_slash_verts (int G_verts) (int (length G_edges)) (H_verts + 2)
                        (int (length (edges H)))
      in case zeros num_verts of
           Inl e \<Rightarrow> Inl e
         | Inr A \<Rightarrow>
            (case slash_loop G_edges H_verts H_adj_matr (number_of_nodes G) A of
               Inl e \<Rightarrow> Inl e
             | Inr A' \<Rightarrow> from_numpy_array A'))"

text \<open>
  \<^verbatim>\<open>def slash_power(G, n):
    G_i = G
    for i in range(1, n):
        G_i = slash_H_into_G(G_i, G)
    return G_i\<close>

  \<open>range(1, n)\<close> is the list \<open>[1..n - 1]\<close>, empty when \<open>n \<le> 1\<close>; an exception in the
  body leaves the loop.
\<close>

fun slash_power_loop :: "graph \<Rightarrow> int list \<Rightarrow> graph \<Rightarrow> error + graph" where
  "slash_power_loop G [] G_i = Inr G_i"
| "slash_power_loop G (i # is) G_i =
     (case slash_H_into_G G_i G of
        Inl e \<Rightarrow> Inl e
      | Inr G' \<Rightarrow> slash_power_loop G is G')"

definition slash_power :: "graph \<Rightarrow> int \<Rightarrow> error + graph" where
  "slash_power G n = slash_power_loop G [1..n - 1] G"

text \<open>The diamond graph of the notebook.\<close>

definition D1_matrix :: matrix where
  "D1_matrix = [[0, 1, 1, 0], [1, 0, 0, 1], [1, 0, 0, 1], [0, 1, 1, 0]]"

definition D1 :: graph where
  "D1 = Graph 4 [((0, 1), 1), ((0, 2), 1), ((1, 3), 1), ((2, 3), 1)]"

section \<open>Notions used in the statements\<close>

text \<open>
  The adjacency matrix of a loop-free undirected graph is square, symmetric and has a
  zero diagonal; the matrix of an unweighted one has entries 0 and 1 only.
\<close>

definition simple_matrix :: "matrix \<Rightarrow> bool" where
  "simple_matrix A = (square A \<and> symmetric A \<and> zero_diagonal A)"

definition valid_adjacency :: "matrix \<Rightarrow> bool" where
  "valid_adjacency A = (simple_matrix A \<and> zero_one A)"

text \<open>The positions of the nonzero entries of a matrix.\<close>

definition nonzeros :: "matrix \<Rightarrow> (nat \<times> nat) set" where
  "nonzeros A = {(x, y). x < length A \<and> y < length A \<and> A ! x ! y \<noteq> 0}"

text \<open>The edges of a loop-free undirected graph, read off the upper triangle.\<close>

definition upper :: "matrix \<Rightarrow> (nat \<times> nat) set" where
  "upper A = {(u, v). u < v \<and> v < length A \<and> A ! u ! v \<noteq> 0}"

text \<open>
  The invariant of the loop of \<open>slash_H_into_G\<close> for an output of \<open>N\<close> rows, a
  \<open>G\<close> of \<open>n\<close> nodes, the edges \<open>es\<close> still to be replaced and the next unused
  label \<open>s\<close>: every nonzero entry lies among the labels already used, and no entry
  between the endpoints of an edge still to be replaced is set.
\<close>

definition loop_inv :: "nat \<Rightarrow> nat \<Rightarrow> (nat \<times> nat) list \<Rightarrow> nat \<Rightarrow> matrix \<Rightarrow> bool" where
  "loop_inv N n es s A =
     (square A \<and> length A = N \<and> zero_diagonal A \<and> n \<le> s \<and>
      (\<forall>x < N. \<forall>y < N. A ! x ! y \<noteq> 0 \<longrightarrow>
         x < s \<and> y < s \<and> (x < n \<and> y < n \<longrightarrow> (x, y) \<notin> set es \<and> (y, x) \<notin> set es)))"

text \<open>
  The blocks that the loop of \<open>slash_H_into_G\<close> assigns, in order, and the loop as the
  sequence of these assignments.
\<close>

fun loop_blocks :: "(nat \<times> nat) list \<Rightarrow> int \<Rightarrow> nat \<Rightarrow> nat list list" where
  "loop_blocks [] H_verts start_index = []"
| "loop_blocks (edge # G_edges) H_verts start_index =
     block_indices edge start_index H_verts #
     loop_blocks G_edges H_verts (start_index + length (fresh_labels start_index H_verts))"

fun assign_blocks :: "nat list list \<Rightarrow> matrix \<Rightarrow> matrix \<Rightarrow> error + matrix" where
  "assign_blocks [] M A = Inr A"
| "assign_blocks (b # bs) M A =
     (case ix_assign A b M of Inl e \<Rightarrow> Inl e | Inr A' \<Rightarrow> assign_blocks bs M A')"

text \<open>The second diamond graph \<open>D2 = slash_power(D1, 2)\<close> of the notebook.\<close>

definition D2 :: graph where
  "D2 = Graph 12
     [((0, 4), 1), ((0, 5), 1), ((0, 6), 1), ((0, 7), 1), ((1, 4), 1), ((1, 5), 1),
      ((1, 8), 1), ((1, 9), 1), ((2, 6), 1), ((2, 7), 1), ((2, 10), 1), ((2, 11), 1),
      ((3, 8), 1), ((3, 9), 1), ((3, 10), 1), ((3, 11), 1)]"

section \<open>Blocks and assignments\<close>

lemma find_Some_mem: "find P xs = Some x \<Longrightarrow> P x \<and> x \<in> set xs"
  by (induction xs) (auto split: if_splits)

lemma last_position_None: "x \<notin> set b \<Longrightarrow> last_position b x = None"
  by (auto simp: last_position_def find_None_iff)

lemma last_position_Some_D: "last_position b x = Some i \<Longrightarrow> i < length b \<and> b ! i = x"
  by (auto simp: last_position_def dest: find_Some_mem)

lemma last_position_mem: "x \<in> set b \<Longrightarrow> \<exists>i. last_position b x = Some i"
proof -
  assume "x \<in> set b"
  then obtain i where "i < length b" "b ! i = x" by (auto simp: in_set_conv_nth)
  then have "i \<in> set (rev [0..<length b]) \<and> b ! i = x" by simp
  then have "\<exists>j. j \<in> set (rev [0..<length b]) \<and> b ! j = x" by blast
  then have "find (\<lambda>i. b ! i = x) (rev [0..<length b]) \<noteq> None"
    by (simp add: find_None_iff)
  then show ?thesis by (auto simp: last_position_def)
qed

lemma last_position_distinct:
  "distinct b \<Longrightarrow> i < length b \<Longrightarrow> last_position b (b ! i) = Some i"
proof -
  assume d: "distinct b" and i: "i < length b"
  from i have "b ! i \<in> set b" by simp
  then obtain j where j: "last_position b (b ! i) = Some j" using last_position_mem by blast
  then have "j < length b" "b ! j = b ! i" using last_position_Some_D by auto
  with d i have "j = i" by (simp add: nth_eq_iff_index_eq)
  with j show ?thesis by simp
qed

lemma ix_assign_length:
  "ix_assign A b M = Inr A' \<Longrightarrow> length A' = length A"
  by (auto simp: ix_assign_def split: if_splits)

lemma ix_assign_row_length:
  "ix_assign A b M = Inr A' \<Longrightarrow> x < length A \<Longrightarrow> length (A' ! x) = length (A ! x)"
  by (auto simp: ix_assign_def split: if_splits)

lemma ix_assign_square:
  "ix_assign A b M = Inr A' \<Longrightarrow> square A \<Longrightarrow> square A'"
  unfolding square_def
  by (metis in_set_conv_nth ix_assign_length ix_assign_row_length nth_mem)

lemma ix_assign_entry:
  "ix_assign A b M = Inr A' \<Longrightarrow> x < length A \<Longrightarrow> y < length (A ! x) \<Longrightarrow>
   A' ! x ! y =
     (case last_position b x of
        None \<Rightarrow> A ! x ! y
      | Some i \<Rightarrow>
         (case last_position b y of
            None \<Rightarrow> A ! x ! y
          | Some j \<Rightarrow> broadcast_entry M i j))"
  by (auto simp: ix_assign_def split: if_splits option.splits)

lemma ix_assign_returns:
  "broadcastable M (length b) \<Longrightarrow> \<forall>x \<in> set b. x < length A \<Longrightarrow> \<exists>A'. ix_assign A b M = Inr A'"
  by (auto simp: ix_assign_def)

section \<open>Graphs of symmetric matrices\<close>

lemma distinct_concat_map:
  "distinct xs \<Longrightarrow> (\<And>x. x \<in> set xs \<Longrightarrow> distinct (f x)) \<Longrightarrow>
   (\<And>x y. x \<in> set xs \<Longrightarrow> y \<in> set xs \<Longrightarrow> x \<noteq> y \<Longrightarrow> set (f x) \<inter> set (f y) = {}) \<Longrightarrow>
   distinct (concat (map f xs))"
  by (induction xs) auto

lemma from_numpy_array_nodes:
  "from_numpy_array A = Inr G \<Longrightarrow> number_of_nodes G = length A"
  by (auto simp: from_numpy_array_def split: if_splits)

lemma from_numpy_array_edges:
  "from_numpy_array A = Inr G \<Longrightarrow>
   edges G = concat (map (\<lambda>u. map (Pair u) (neighbours_from A u)) [0..<length A])"
  by (auto simp: from_numpy_array_def edges_def map_concat comp_def split: if_splits)

lemma from_numpy_array_square:
  "square A \<Longrightarrow> \<exists>G. from_numpy_array A = Inr G"
  by (simp add: from_numpy_array_def)

lemma simple_neighbours:
  assumes "simple_matrix A" "u < length A"
  shows "neighbours_from A u = filter (\<lambda>v. A ! u ! v \<noteq> 0) [Suc u..<length A]"
proof -
  have sym: "\<And>v. v < length A \<Longrightarrow> A ! v ! u = A ! u ! v"
    using assms by (simp add: simple_matrix_def symmetric_def)
  have diag: "A ! u ! u = 0"
    using assms by (simp add: simple_matrix_def zero_diagonal_def)
  have "filter (\<lambda>v. A ! u ! v = 0 \<and> A ! v ! u \<noteq> 0) [Suc u..<length A] = []"
    using sym by (auto simp: filter_empty_conv)
  moreover have "filter (\<lambda>v. A ! u ! v \<noteq> 0) [u..<length A]
      = filter (\<lambda>v. A ! u ! v \<noteq> 0) [Suc u..<length A]"
    using assms(2) diag by (simp add: upt_conv_Cons)
  ultimately show ?thesis by (simp add: neighbours_from_def)
qed

lemma simple_edges_set:
  assumes "simple_matrix A" "from_numpy_array A = Inr G"
  shows "set (edges G) = upper A"
proof -
  have "set (edges G) = (\<Union>u \<in> {0..<length A}. Pair u ` set (neighbours_from A u))"
    using from_numpy_array_edges [OF assms(2)] by simp
  also have "\<dots> = (\<Union>u \<in> {0..<length A}. Pair u ` {v. Suc u \<le> v \<and> v < length A \<and> A ! u ! v \<noteq> 0})"
    using simple_neighbours [OF assms(1)] by auto
  also have "\<dots> = upper A"
    by (fastforce simp: upper_def image_iff)
  finally show ?thesis .
qed

lemma simple_edges_distinct:
  assumes "simple_matrix A" "from_numpy_array A = Inr G"
  shows "distinct (edges G)"
proof -
  have "distinct (concat (map (\<lambda>u. map (Pair u) (neighbours_from A u)) [0..<length A]))"
  proof (rule distinct_concat_map)
    show "distinct [0..<length A]" by simp
  next
    fix x assume "x \<in> set [0..<length A]"
    then have "x < length A" by simp
    then show "distinct (map (Pair x) (neighbours_from A x))"
      using simple_neighbours [OF assms(1)] by (simp add: distinct_map inj_on_def)
  next
    fix x y :: nat assume "x \<noteq> y"
    then show "set (map (Pair x) (neighbours_from A x)) \<inter> set (map (Pair y) (neighbours_from A y)) = {}"
      by auto
  qed
  then show ?thesis using from_numpy_array_edges [OF assms(2)] by simp
qed

lemma finite_nonzeros: "finite (nonzeros A)"
proof -
  have "nonzeros A \<subseteq> {0..<length A} \<times> {0..<length A}"
    by (auto simp: nonzeros_def)
  then show ?thesis by (rule finite_subset) simp
qed

lemma finite_upper: "finite (upper A)"
proof -
  have "upper A \<subseteq> {0..<length A} \<times> {0..<length A}"
    by (auto simp: upper_def)
  then show ?thesis by (rule finite_subset) simp
qed

lemma nonzeros_upper:
  assumes "simple_matrix A"
  shows "card (nonzeros A) = 2 * card (upper A)"
proof -
  have sym: "\<And>u v. u < length A \<Longrightarrow> v < length A \<Longrightarrow> A ! u ! v = A ! v ! u"
    using assms by (simp add: simple_matrix_def symmetric_def)
  have diag: "\<And>u. u < length A \<Longrightarrow> A ! u ! u = 0"
    using assms by (simp add: simple_matrix_def zero_diagonal_def)
  let ?sw = "\<lambda>p::nat \<times> nat. (snd p, fst p)"
  have split: "nonzeros A = upper A \<union> ?sw ` upper A"
  proof (rule set_eqI)
    fix p :: "nat \<times> nat"
    obtain x y where p: "p = (x, y)" by (cases p)
    show "p \<in> nonzeros A \<longleftrightarrow> p \<in> upper A \<union> ?sw ` upper A"
    proof
      assume "p \<in> nonzeros A"
      then have xy: "x < length A" "y < length A" "A ! x ! y \<noteq> 0"
        using p by (auto simp: nonzeros_def)
      then have "x \<noteq> y" using diag by auto
      then consider "x < y" | "y < x" by linarith
      then show "p \<in> upper A \<union> ?sw ` upper A"
      proof cases
        case 1
        then show ?thesis using xy p by (simp add: upper_def)
      next
        case 2
        then have "(y, x) \<in> upper A" using xy sym [of x y] by (simp add: upper_def)
        then have "?sw (y, x) \<in> ?sw ` upper A" by (rule imageI)
        then show ?thesis using p by simp
      qed
    next
      assume "p \<in> upper A \<union> ?sw ` upper A"
      then show "p \<in> nonzeros A"
        using p sym by (auto simp: upper_def nonzeros_def)
    qed
  qed
  have disj: "upper A \<inter> ?sw ` upper A = {}"
    by (auto simp: upper_def)
  have inj: "inj_on ?sw (upper A)"
    by (auto simp: inj_on_def)
  have "card (nonzeros A) = card (upper A) + card (?sw ` upper A)"
    unfolding split using finite_upper disj by (intro card_Un_disjoint) auto
  also have "card (?sw ` upper A) = card (upper A)"
    using inj by (rule card_image)
  finally show ?thesis by simp
qed

lemma simple_edges_count:
  assumes "simple_matrix A" "from_numpy_array A = Inr G"
  shows "2 * length (edges G) = card (nonzeros A)"
proof -
  have "length (edges G) = card (set (edges G))"
    using simple_edges_distinct [OF assms] by (simp add: distinct_card)
  then show ?thesis
    using simple_edges_set [OF assms] nonzeros_upper [OF assms(1)] by simp
qed

lemma weight_of_simple:
  assumes "simple_matrix A" "from_numpy_array A = Inr G" "i < length A" "j < length A"
  shows "weight_of G i j = A ! i ! j"
proof -
  have sym: "\<And>u v. u < length A \<Longrightarrow> v < length A \<Longrightarrow> A ! u ! v = A ! v ! u"
    using assms(1) by (simp add: simple_matrix_def symmetric_def)
  have data: "edge_data G = concat (map (\<lambda>u. map (\<lambda>v. ((u, v), edge_weight A u v)) (neighbours_from A u)) [0..<length A])"
    using assms(2) by (auto simp: from_numpy_array_def split: if_splits)
  have es: "set (edges G) = upper A" using simple_edges_set [OF assms(1,2)] .
  let ?P = "\<lambda>e::(nat \<times> nat) \<times> int. fst e = (i, j) \<or> fst e = (j, i)"
  show ?thesis
  proof (cases "find ?P (edge_data G)")
    case None
    then have no: "\<And>e. e \<in> set (edge_data G) \<Longrightarrow> \<not> ?P e"
      unfolding find_None_iff by blast
    have "p \<notin> set (edges G)" if "p = (i, j) \<or> p = (j, i)" for p
    proof
      assume "p \<in> set (edges G)"
      then obtain e where "e \<in> set (edge_data G)" "fst e = p"
        by (auto simp: edges_def)
      then show False using no [of e] that by simp
    qed
    then have "(i, j) \<notin> set (edges G)" "(j, i) \<notin> set (edges G)"
      by simp_all
    then have "A ! i ! j = 0"
      using es assms(3,4) sym [of i j]
      by (cases "i < j"; cases "j < i"; cases "i = j")
         (use assms(1) in \<open>auto simp: upper_def simple_matrix_def zero_diagonal_def\<close>)
    then show ?thesis using None by (simp add: weight_of_def)
  next
    case (Some e)
    then have e: "?P e" "e \<in> set (edge_data G)" using find_Some_mem [OF Some] by auto
    then obtain u v where uv: "e = ((u, v), edge_weight A u v)" "u < length A" "v \<in> set (neighbours_from A u)"
      using data by auto
    then have v: "v < length A"
      using simple_neighbours [OF assms(1) uv(2)] by auto
    have "edge_weight A u v = A ! u ! v"
      using sym [OF uv(2) v] by (simp add: edge_weight_def)
    moreover have "A ! u ! v = A ! i ! j"
      using e(1) uv(1) sym [OF assms(3,4)] by auto
    ultimately show ?thesis using Some uv(1) by (simp add: weight_of_def)
  qed
qed

lemma to_numpy_array_simple:
  assumes "simple_matrix A" "from_numpy_array A = Inr G"
  shows "to_numpy_array G = A"
proof -
  have n: "number_of_nodes G = length A" using from_numpy_array_nodes [OF assms(2)] .
  have sq: "\<And>i. i < length A \<Longrightarrow> length (A ! i) = length A"
    using assms(1) by (simp add: simple_matrix_def square_def)
  show ?thesis
  proof (rule nth_equalityI)
    show "length (to_numpy_array G) = length A" by (simp add: to_numpy_array_def n)
  next
    fix i assume "i < length (to_numpy_array G)"
    then have i: "i < length A" by (simp add: to_numpy_array_def n)
    show "to_numpy_array G ! i = A ! i"
    proof (rule nth_equalityI)
      show "length (to_numpy_array G ! i) = length (A ! i)"
        using i sq by (simp add: to_numpy_array_def n)
    next
      fix j assume "j < length (to_numpy_array G ! i)"
      then have j: "j < length A" using i by (simp add: to_numpy_array_def n)
      show "to_numpy_array G ! i ! j = A ! i ! j"
        using i j weight_of_simple [OF assms i j] by (simp add: to_numpy_array_def n)
    qed
  qed
qed

section \<open>Symmetry is preserved\<close>

lemma square_shape:
  assumes "square M"
  shows "shape M = (length M, length M)"
proof (cases M)
  case Nil
  then show ?thesis by (simp add: shape_def)
next
  case (Cons r rs)
  then have "length r = length M" using assms by (simp add: square_def)
  then show ?thesis using Cons by (simp add: shape_def)
qed

lemma broadcast_entry_sym:
  assumes "simple_matrix M" "broadcastable M l" "i < l" "j < l"
  shows "broadcast_entry M i j = broadcast_entry M j i"
proof -
  have sh: "shape M = (length M, length M)"
    using assms(1) by (simp add: simple_matrix_def square_shape)
  show ?thesis
  proof (cases "length M = 1")
    case True
    then show ?thesis by (simp add: broadcast_entry_def sh)
  next
    case False
    then have "length M = l" using assms(2) by (simp add: broadcastable_def sh)
    then show ?thesis
      using assms(1,3,4) False by (simp add: broadcast_entry_def sh simple_matrix_def symmetric_def)
  qed
qed

lemma broadcast_entry_diag:
  assumes "simple_matrix M" "broadcastable M l" "i < l"
  shows "broadcast_entry M i i = 0"
proof -
  have sh: "shape M = (length M, length M)"
    using assms(1) by (simp add: simple_matrix_def square_shape)
  show ?thesis
  proof (cases "length M = 1")
    case True
    then show ?thesis
      using assms(1) by (simp add: broadcast_entry_def sh simple_matrix_def zero_diagonal_def)
  next
    case False
    then have "length M = l" using assms(2) by (simp add: broadcastable_def sh)
    then show ?thesis
      using assms(1,3) False by (simp add: broadcast_entry_def sh simple_matrix_def zero_diagonal_def)
  qed
qed

lemma ix_assign_broadcastable:
  "ix_assign A b M = Inr A' \<Longrightarrow> broadcastable M (length b)"
  by (auto simp: ix_assign_def split: if_splits)

lemma ix_assign_simple:
  assumes A: "simple_matrix A" and M: "simple_matrix M" and ok: "ix_assign A b M = Inr A'"
  shows "simple_matrix A'"
proof -
  have len: "length A' = length A" using ok by (rule ix_assign_length)
  have sqA: "\<And>x. x < length A \<Longrightarrow> length (A ! x) = length A"
    using A by (simp add: simple_matrix_def square_def)
  have bc: "broadcastable M (length b)" using ok by (rule ix_assign_broadcastable)
  have entry: "\<And>x y. x < length A \<Longrightarrow> y < length A \<Longrightarrow>
      A' ! x ! y = (case last_position b x of None \<Rightarrow> A ! x ! y
        | Some i \<Rightarrow> (case last_position b y of None \<Rightarrow> A ! x ! y | Some j \<Rightarrow> broadcast_entry M i j))"
    using ix_assign_entry [OF ok] sqA by simp
  have symA: "\<And>x y. x < length A \<Longrightarrow> y < length A \<Longrightarrow> A ! x ! y = A ! y ! x"
    using A by (simp add: simple_matrix_def symmetric_def)
  have diagA: "\<And>x. x < length A \<Longrightarrow> A ! x ! x = 0"
    using A by (simp add: simple_matrix_def zero_diagonal_def)
  have "square A'" using ok A by (auto simp: simple_matrix_def intro: ix_assign_square)
  moreover have "symmetric A'"
    unfolding symmetric_def
  proof (intro ballI)
    fix x y assume "x \<in> {0..<length A'}" "y \<in> {0..<length A'}"
    then have xy: "x < length A" "y < length A" using len by auto
    show "A' ! x ! y = A' ! y ! x"
      using entry [OF xy] entry [OF xy(2,1)] symA [OF xy]
      by (auto split: option.splits dest!: last_position_Some_D
               intro: broadcast_entry_sym [OF M bc])
  qed
  moreover have "zero_diagonal A'"
    unfolding zero_diagonal_def
  proof (intro ballI)
    fix x assume "x \<in> {0..<length A'}"
    then have x: "x < length A" using len by auto
    show "A' ! x ! x = 0"
      using entry [OF x x] diagA [OF x]
      by (auto split: option.splits dest!: last_position_Some_D
               intro: broadcast_entry_diag [OF M bc])
  qed
  ultimately show ?thesis by (simp add: simple_matrix_def)
qed

lemma slash_loop_simple:
  "simple_matrix A \<Longrightarrow> simple_matrix M \<Longrightarrow> slash_loop es Hv M s A = Inr R \<Longrightarrow> simple_matrix R"
proof (induction es arbitrary: s A)
  case Nil
  then show ?case by simp
next
  case (Cons e es)
  from Cons.prems(3) obtain A' where
    step: "ix_assign A (block_indices e s Hv) M = Inr A'" and
    rest: "slash_loop es Hv M (s + length (fresh_labels s Hv)) A' = Inr R"
    by (auto split: sum.splits)
  have "simple_matrix A'" using ix_assign_simple [OF Cons.prems(1,2) step] .
  then show ?case using Cons.IH [OF _ Cons.prems(2) rest] by simp
qed

lemma zeros_simple: "zeros n = Inr A \<Longrightarrow> simple_matrix A \<and> length A = nat n \<and> nonzeros A = {}"
  by (auto simp: zeros_def simple_matrix_def square_def symmetric_def zero_diagonal_def nonzeros_def
           split: if_splits)


section \<open>One iteration of the loop\<close>

lemma fresh_labels_nat: "2 \<le> k \<Longrightarrow> fresh_labels s (int k - 2) = [s..<s + (k - 2)]"
  by (simp add: fresh_labels_def nat_diff_distrib' nat_add_distrib)

lemma block_indices_ordered:
  "u < v \<Longrightarrow> 2 \<le> k \<Longrightarrow> block_indices (u, v) s (int k - 2) = u # [s..<s + (k - 2)] @ [v]"
  by (simp add: block_indices_def ordered_edge_def fresh_labels_nat)

lemma simple_broadcast:
  assumes "simple_matrix M" "2 \<le> length M"
  shows "broadcastable M (length M)" "broadcast_entry M i j = M ! i ! j"
proof -
  have sh: "shape M = (length M, length M)"
    using assms(1) by (simp add: simple_matrix_def square_shape)
  show "broadcastable M (length M)" by (simp add: broadcastable_def sh)
  show "broadcast_entry M i j = M ! i ! j" using assms(2) by (simp add: broadcast_entry_def sh)
qed

lemma ix_assign_distinct_block:
  assumes sq: "square A" and M: "simple_matrix M" "2 \<le> length M"
      and b: "length b = length M" "distinct b" "\<forall>x \<in> set b. x < length A"
  shows "\<exists>A'. ix_assign A b M = Inr A' \<and> square A' \<and> length A' = length A \<and>
          (\<forall>i < length b. \<forall>j < length b. A' ! (b ! i) ! (b ! j) = M ! i ! j) \<and>
          (\<forall>x < length A. \<forall>y < length A. \<not> (x \<in> set b \<and> y \<in> set b) \<longrightarrow> A' ! x ! y = A ! x ! y)"
proof -
  have bc: "broadcastable M (length b)" using simple_broadcast(1) [OF M] b(1) by simp
  then obtain A' where ok: "ix_assign A b M = Inr A'"
    using ix_assign_returns [OF _ b(3)] by blast
  have sqA: "\<And>x. x < length A \<Longrightarrow> length (A ! x) = length A"
    using sq by (simp add: square_def)
  have entry: "\<And>x y. x < length A \<Longrightarrow> y < length A \<Longrightarrow>
      A' ! x ! y = (case last_position b x of None \<Rightarrow> A ! x ! y
        | Some i \<Rightarrow> (case last_position b y of None \<Rightarrow> A ! x ! y | Some j \<Rightarrow> M ! i ! j))"
    using ix_assign_entry [OF ok] sqA simple_broadcast(2) [OF M] by (simp split: option.splits)
  have inside: "A' ! (b ! i) ! (b ! j) = M ! i ! j" if "i < length b" "j < length b" for i j
  proof -
    have "b ! i < length A" "b ! j < length A" using that b(3) by simp_all
    then show ?thesis
      using entry [of "b ! i" "b ! j"] last_position_distinct [OF b(2)] that by simp
  qed
  have outside: "A' ! x ! y = A ! x ! y"
    if "x < length A" "y < length A" "\<not> (x \<in> set b \<and> y \<in> set b)" for x y
    using entry [OF that(1,2)] that(3) last_position_None [of _ b]
    by (auto split: option.splits)
  show ?thesis
    using ok ix_assign_square [OF ok sq] ix_assign_length [OF ok] inside outside by blast
qed

lemma slash_step:
  assumes inv: "loop_inv N n ((u, v) # es) s A"
      and M: "simple_matrix M" "2 \<le> length M"
      and e: "u < v" "v < n" "(u, v) \<notin> set es" "\<forall>p \<in> set es. fst p < snd p"
      and bound: "s + (length M - 2) \<le> N"
  shows "\<exists>A'. ix_assign A (block_indices (u, v) s (int (length M) - 2)) M = Inr A' \<and>
          loop_inv N n es (s + (length M - 2)) A' \<and>
          card (nonzeros A') = card (nonzeros A) + card (nonzeros M)"
proof -
  let ?h = "length M - 2"
  let ?b = "u # [s..<s + ?h] @ [v]"
  have blk: "block_indices (u, v) s (int (length M) - 2) = ?b"
    using block_indices_ordered [OF e(1) M(2)] .
  from inv have sq: "square A" and len: "length A = N" and diag: "zero_diagonal A"
    and ns: "n \<le> s"
    by (simp_all add: loop_inv_def)
  from inv have nz: "x < s \<and> y < s \<and>
      (x < n \<and> y < n \<longrightarrow> (x, y) \<notin> set ((u, v) # es) \<and> (y, x) \<notin> set ((u, v) # es))"
    if "x < N" "y < N" "A ! x ! y \<noteq> 0" for x y
    using that unfolding loop_inv_def by blast
  have diagM: "\<And>i. i < length M \<Longrightarrow> M ! i ! i = 0"
    using M(1) by (simp add: simple_matrix_def zero_diagonal_def)
  have lb: "length ?b = length M" using M(2) by simp
  have db: "distinct ?b" using e ns by auto
  have sb: "set ?b = {u, v} \<union> {s..<s + ?h}" by auto
  have inb: "\<forall>x \<in> set ?b. x < length A" using e ns bound len by auto
  from ix_assign_distinct_block [OF sq M lb db inb]
  obtain A' where ok: "ix_assign A ?b M = Inr A'" and sq': "square A'"
    and len': "length A' = N"
    and inside: "\<And>i j. i < length M \<Longrightarrow> j < length M \<Longrightarrow> A' ! (?b ! i) ! (?b ! j) = M ! i ! j"
    and outside: "\<And>x y. x < N \<Longrightarrow> y < N \<Longrightarrow> \<not> (x \<in> set ?b \<and> y \<in> set ?b) \<Longrightarrow> A' ! x ! y = A ! x ! y"
    unfolding lb len by blast
  have pos: "\<exists>i < length M. ?b ! i = x" if "x \<in> set ?b" for x
    using that lb by (metis in_set_conv_nth)
  have bN: "?b ! i < N" if "i < length M" for i
    using inb that lb len by (metis nth_mem)
  have inj: "i = j" if "i < length M" "j < length M" "?b ! i = ?b ! j" for i j
    using that db lb by (metis nth_eq_iff_index_eq)
  have zero_blk: "A ! x ! y = 0" if "x \<in> set ?b" "y \<in> set ?b" for x y
  proof (rule ccontr)
    assume ne: "A ! x ! y \<noteq> 0"
    have xN: "x < N" "y < N" using inb that len by auto
    from nz [OF xN ne] have lt: "x < s" "y < s"
      and notin: "x < n \<and> y < n \<longrightarrow> (x, y) \<noteq> (u, v) \<and> (y, x) \<noteq> (u, v)" by auto
    from lt that have xy: "x = u \<or> x = v" "y = u \<or> y = v" by auto
    then have "x < n" "y < n" using e by auto
    with notin xy have "x = y" by auto
    then show False using ne diag xN len by (simp add: zero_diagonal_def)
  qed
  let ?psi = "\<lambda>p::nat \<times> nat. (?b ! fst p, ?b ! snd p)"
  have nz': "nonzeros A' = nonzeros A \<union> ?psi ` nonzeros M"
  proof (rule set_eqI)
    fix p :: "nat \<times> nat"
    obtain x y where p: "p = (x, y)" by (cases p)
    show "p \<in> nonzeros A' \<longleftrightarrow> p \<in> nonzeros A \<union> ?psi ` nonzeros M"
    proof
      assume "p \<in> nonzeros A'"
      then have xy: "x < N" "y < N" "A' ! x ! y \<noteq> 0"
        using p len' by (auto simp: nonzeros_def)
      show "p \<in> nonzeros A \<union> ?psi ` nonzeros M"
      proof (cases "x \<in> set ?b \<and> y \<in> set ?b")
        case True
        then obtain i j where ij: "i < length M" "?b ! i = x" "j < length M" "?b ! j = y"
          using pos by blast
        then have "M ! i ! j \<noteq> 0" using inside [of i j] xy(3) by simp
        then have "(i, j) \<in> nonzeros M" using ij by (simp add: nonzeros_def)
        then have "?psi (i, j) \<in> ?psi ` nonzeros M" by (rule imageI)
        then show ?thesis using ij p by simp
      next
        case False
        then have "A ! x ! y \<noteq> 0" using outside [OF xy(1,2)] xy(3) by simp
        then show ?thesis using xy p len by (simp add: nonzeros_def)
      qed
    next
      assume "p \<in> nonzeros A \<union> ?psi ` nonzeros M"
      then show "p \<in> nonzeros A'"
      proof
        assume "p \<in> nonzeros A"
        then have xy: "x < N" "y < N" "A ! x ! y \<noteq> 0"
          using p len by (auto simp: nonzeros_def)
        then have "\<not> (x \<in> set ?b \<and> y \<in> set ?b)" using zero_blk by blast
        then show ?thesis using outside [OF xy(1,2)] xy p len' by (simp add: nonzeros_def)
      next
        assume "p \<in> ?psi ` nonzeros M"
        then obtain i j where ij: "i < length M" "j < length M" "M ! i ! j \<noteq> 0"
          and pe: "p = (?b ! i, ?b ! j)"
          by (auto simp: nonzeros_def)
        then show ?thesis
          using inside [OF ij(1,2)] bN [OF ij(1)] bN [OF ij(2)] len'
          by (simp add: nonzeros_def)
      qed
    qed
  qed
  have disj: "nonzeros A \<inter> ?psi ` nonzeros M = {}"
  proof (rule ccontr)
    assume "nonzeros A \<inter> ?psi ` nonzeros M \<noteq> {}"
    then obtain p where p: "p \<in> nonzeros M" "?psi p \<in> nonzeros A" by blast
    from p(1) have ij: "fst p < length M" "snd p < length M"
      by (auto simp: nonzeros_def)
    from p(2) have "A ! (?b ! fst p) ! (?b ! snd p) \<noteq> 0"
      by (simp add: nonzeros_def)
    moreover have "?b ! fst p \<in> set ?b" "?b ! snd p \<in> set ?b"
      using ij lb by (metis nth_mem)+
    ultimately show False using zero_blk by blast
  qed
  have inj_psi: "inj_on ?psi (nonzeros M)"
    unfolding inj_on_def
  proof (intro ballI impI)
    fix p q assume "p \<in> nonzeros M" "q \<in> nonzeros M" "?psi p = ?psi q"
    then have "fst p = fst q" "snd p = snd q"
      using inj [of "fst p" "fst q"] inj [of "snd p" "snd q"]
      by (auto simp: nonzeros_def)
    then show "p = q" by (simp add: prod_eq_iff)
  qed
  have card': "card (nonzeros A') = card (nonzeros A) + card (nonzeros M)"
  proof -
    have "card (nonzeros A') = card (nonzeros A) + card (?psi ` nonzeros M)"
      unfolding nz' using finite_nonzeros disj by (intro card_Un_disjoint) auto
    then show ?thesis using card_image [OF inj_psi] by simp
  qed
  have diag': "zero_diagonal A'"
    unfolding zero_diagonal_def
  proof (intro ballI)
    fix x assume "x \<in> {0..<length A'}"
    then have x: "x < N" using len' by simp
    show "A' ! x ! x = 0"
    proof (cases "x \<in> set ?b")
      case True
      then obtain i where "i < length M" "?b ! i = x" using pos by blast
      then show ?thesis using inside [of i i] diagM by auto
    next
      case False
      then show ?thesis using outside [OF x x] diag x len by (simp add: zero_diagonal_def)
    qed
  qed
  have nzinv: "x < s + ?h \<and> y < s + ?h \<and>
      (x < n \<and> y < n \<longrightarrow> (x, y) \<notin> set es \<and> (y, x) \<notin> set es)"
    if xy: "x < N" "y < N" "A' ! x ! y \<noteq> 0" for x y
  proof (cases "x \<in> set ?b \<and> y \<in> set ?b")
    case True
    then obtain i j where ij: "i < length M" "?b ! i = x" "j < length M" "?b ! j = y"
      using pos by blast
    then have "M ! i ! j \<noteq> 0" using inside [of i j] xy(3) by simp
    then have "i \<noteq> j" using diagM ij by auto
    then have ne: "x \<noteq> y" using inj ij by blast
    have lt: "x < s + ?h" "y < s + ?h" using True e ns by auto
    have "(x, y) \<notin> set es \<and> (y, x) \<notin> set es" if "x < n" "y < n"
    proof -
      from that True ns have "x = u \<or> x = v" "y = u \<or> y = v" by auto
      with ne have "(x, y) = (u, v) \<or> (x, y) = (v, u)" by auto
      moreover have "(v, u) \<notin> set es" using e(1,4) by force
      ultimately show ?thesis using e(3) by auto
    qed
    with lt show ?thesis by blast
  next
    case False
    then have "A ! x ! y \<noteq> 0" using outside [OF xy(1,2)] xy(3) by simp
    from nz [OF xy(1,2) this] show ?thesis by auto
  qed
  have "loop_inv N n es (s + ?h) A'"
    unfolding loop_inv_def using sq' len' diag' ns nzinv by auto
  then show ?thesis using ok blk card' by simp
qed

section \<open>The whole loop\<close>

lemma slash_loop_count:
  assumes M: "simple_matrix M" "2 \<le> length M"
  shows "distinct es \<Longrightarrow> \<forall>p \<in> set es. fst p < snd p \<and> snd p < n \<Longrightarrow>
     loop_inv N n es s A \<Longrightarrow> s + length es * (length M - 2) \<le> N \<Longrightarrow>
     \<exists>R. slash_loop es (int (length M) - 2) M s A = Inr R \<and> length R = N \<and>
         card (nonzeros R) = card (nonzeros A) + length es * card (nonzeros M)"
proof (induction es arbitrary: s A)
  case Nil
  then show ?case by (simp add: loop_inv_def)
next
  case (Cons e es)
  obtain u v where e: "e = (u, v)" by (cases e)
  have uv: "u < v" "v < n" "(u, v) \<notin> set es" "\<forall>p \<in> set es. fst p < snd p"
    using Cons.prems(1,2) e by auto
  have bound: "s + (length M - 2) \<le> N" using Cons.prems(4) by simp
  from slash_step [OF Cons.prems(3) [unfolded e] M uv bound]
  obtain A' where
    step: "ix_assign A (block_indices (u, v) s (int (length M) - 2)) M = Inr A'" and
    inv': "loop_inv N n es (s + (length M - 2)) A'" and
    card': "card (nonzeros A') = card (nonzeros A) + card (nonzeros M)"
    by blast
  have "distinct es" "\<forall>p \<in> set es. fst p < snd p \<and> snd p < n"
    "s + (length M - 2) + length es * (length M - 2) \<le> N"
    using Cons.prems(1,2,4) by simp_all
  from Cons.IH [OF this(1,2) inv' this(3)]
  obtain R where
    rest: "slash_loop es (int (length M) - 2) M (s + (length M - 2)) A' = Inr R" and
    lenR: "length R = N" and
    cardR: "card (nonzeros R) = card (nonzeros A') + length es * card (nonzeros M)"
    by blast
  have "slash_loop (e # es) (int (length M) - 2) M s A = Inr R"
    using step rest e by (simp add: fresh_labels_nat [OF M(2)])
  then show ?case using lenR cardR card' by simp
qed

lemma zeros_nat: "zeros (int n) = Inr (replicate n (replicate n 0))"
  by (simp add: zeros_def)

lemma zeros_nat_simple:
  assumes "zeros (int n) = Inr Z"
  shows "simple_matrix Z" "length Z = n" "nonzeros Z = {}"
proof -
  have Z: "Z = replicate n (replicate n 0)" using assms zeros_nat [of n] by simp
  show "simple_matrix Z" "length Z = n" "nonzeros Z = {}"
    unfolding Z
    by (auto simp: simple_matrix_def square_def symmetric_def zero_diagonal_def nonzeros_def)
qed

lemma slash_H_into_G_simple:
  assumes A: "simple_matrix A" "from_numpy_array A = Inr G"
      and B: "simple_matrix B" "from_numpy_array B = Inr H" "2 \<le> length B"
  shows "\<exists>R Gr. slash_H_into_G G H = Inr Gr \<and> simple_matrix R \<and> from_numpy_array R = Inr Gr \<and>
           length R = length A + length (edges G) * (length B - 2) \<and>
           length (edges Gr) = length (edges G) * length (edges H)"
proof -
  let ?N = "length A + length (edges G) * (length B - 2)"
  have nG: "number_of_nodes G = length A" using from_numpy_array_nodes [OF A(2)] .
  have nH: "number_of_nodes H = length B" using from_numpy_array_nodes [OF B(2)] .
  have tH: "to_numpy_array H = B" using to_numpy_array_simple [OF B(1,2)] .
  have num: "comp_slash_verts (int (length A)) (int (length (edges G))) (int (length B) - 2 + 2)
      (int (length (edges H))) = int ?N"
    using B(3) by (simp add: comp_slash_verts_def of_nat_diff)
  obtain Z where z: "zeros (int ?N) = Inr Z" using zeros_nat by blast
  have Z: "simple_matrix Z" "length Z = ?N" "nonzeros Z = {}"
    using zeros_nat_simple [OF z] by blast+
  have zero: "\<And>x y. x < ?N \<Longrightarrow> y < ?N \<Longrightarrow> Z ! x ! y = 0"
    using Z(2,3) by (auto simp: nonzeros_def)
  have inv: "loop_inv ?N (length A) (edges G) (length A) Z"
    unfolding loop_inv_def using Z(1,2) zero by (simp add: simple_matrix_def)
  have es: "distinct (edges G)" "\<forall>p \<in> set (edges G). fst p < snd p \<and> snd p < length A"
    using simple_edges_distinct [OF A] simple_edges_set [OF A] by (auto simp: upper_def)
  from slash_loop_count [OF B(1,3) es inv]
  obtain R where
    loop: "slash_loop (edges G) (int (length B) - 2) B (length A) Z = Inr R" and
    lenR: "length R = ?N" and
    cardR: "card (nonzeros R) = card (nonzeros Z) + length (edges G) * card (nonzeros B)"
    by auto
  have sR: "simple_matrix R" using slash_loop_simple [OF Z(1) B(1) loop] .
  then obtain Gr where gr: "from_numpy_array R = Inr Gr"
    using from_numpy_array_square by (auto simp: simple_matrix_def)
  have run: "slash_H_into_G G H = Inr Gr"
    unfolding slash_H_into_G_def Let_def nG nH tH num
    by (simp only: z loop gr sum.case)
  have "2 * length (edges Gr) = length (edges G) * (2 * length (edges H))"
    using simple_edges_count [OF sR gr] simple_edges_count [OF B(1,2)] cardR Z(3) by simp
  then have "length (edges Gr) = length (edges G) * length (edges H)" by simp
  then show ?thesis using run sR gr lenR by blast
qed

lemma from_numpy_array_zeros:
  "from_numpy_array (replicate n (replicate n 0)) = Inr (Graph n [])"
proof -
  have "neighbours_from (replicate n (replicate n 0)) u = []" if "u < n" for u
    using that by (auto simp: neighbours_from_def filter_empty_conv)
  then have "concat (map (\<lambda>u. map (\<lambda>v. ((u, v), edge_weight (replicate n (replicate n 0)) u v))
      (neighbours_from (replicate n (replicate n 0)) u)) [0..<n]) = []"
    by simp
  then show ?thesis by (simp add: from_numpy_array_def square_def)
qed

lemma slash_H_into_G_edgeless:
  "edges G = [] \<Longrightarrow> slash_H_into_G G H = Inr (Graph (number_of_nodes G) [])"
  by (simp add: slash_H_into_G_def comp_slash_verts_def zeros_def from_numpy_array_zeros)

section \<open>The blocks of the loop\<close>

lemma slash_loop_blocks:
  "slash_loop es Hv M s A = assign_blocks (loop_blocks es Hv s) M A"
  by (induction es arbitrary: s A) (auto split: sum.splits)

lemma length_loop_blocks: "length (loop_blocks es Hv s) = length es"
  by (induction es arbitrary: s) auto

lemma loop_blocks_nth:
  assumes "2 \<le> k"
  shows "\<forall>p \<in> set es. fst p < snd p \<Longrightarrow> i < length es \<Longrightarrow>
     loop_blocks es (int k - 2) s ! i =
       fst (es ! i) # [s + i * (k - 2)..<s + Suc i * (k - 2)] @ [snd (es ! i)]"
proof (induction es arbitrary: s i)
  case Nil
  then show ?case by simp
next
  case (Cons e es)
  obtain u v where e: "e = (u, v)" by (cases e)
  show ?case
  proof (cases i)
    case 0
    then show ?thesis using Cons.prems e assms by (simp add: block_indices_ordered)
  next
    case (Suc j)
    then have "loop_blocks (e # es) (int k - 2) s ! i = loop_blocks es (int k - 2) (s + (k - 2)) ! j"
      by (simp add: fresh_labels_nat [OF assms])
    also have "\<dots> = fst (es ! j) # [s + (k - 2) + j * (k - 2)..<s + (k - 2) + Suc j * (k - 2)] @ [snd (es ! j)]"
      using Cons.IH [of j "s + (k - 2)"] Cons.prems Suc by simp
    finally show ?thesis using Suc by (simp add: add.assoc)
  qed
qed

lemma blocks_disjoint:
  assumes k: "2 \<le> k" and es: "distinct es" "\<forall>p \<in> set es. fst p < snd p \<and> snd p < n"
      and ns: "n \<le> s" and ij: "i < j" "j < length es"
  shows "set (butlast (tl (loop_blocks es (int k - 2) s ! i))) \<inter>
         set (butlast (tl (loop_blocks es (int k - 2) s ! j))) = {}"
    and "x \<in> set (loop_blocks es (int k - 2) s ! i) \<Longrightarrow> y \<in> set (loop_blocks es (int k - 2) s ! i) \<Longrightarrow>
         x \<in> set (loop_blocks es (int k - 2) s ! j) \<Longrightarrow> y \<in> set (loop_blocks es (int k - 2) s ! j) \<Longrightarrow>
         x = y"
proof -
  let ?h = "k - 2"
  have lt: "\<forall>p \<in> set es. fst p < snd p" using es(2) by auto
  have bi: "loop_blocks es (int k - 2) s ! i = fst (es ! i) # [s + i * ?h..<s + Suc i * ?h] @ [snd (es ! i)]"
    using loop_blocks_nth [OF k lt] ij by simp
  have bj: "loop_blocks es (int k - 2) s ! j = fst (es ! j) # [s + j * ?h..<s + Suc j * ?h] @ [snd (es ! j)]"
    using loop_blocks_nth [OF k lt] ij by simp
  have le: "Suc i * ?h \<le> j * ?h" using ij(1) by (intro mult_le_mono1) simp
  show "set (butlast (tl (loop_blocks es (int k - 2) s ! i))) \<inter>
         set (butlast (tl (loop_blocks es (int k - 2) s ! j))) = {}"
    unfolding bi bj using le by (auto simp: butlast_append)
  have ei: "fst (es ! i) < snd (es ! i)" "snd (es ! i) < n"
    and ej: "fst (es ! j) < snd (es ! j)" "snd (es ! j) < n"
    using es(2) ij by (metis nth_mem less_trans)+
  have ne: "es ! i \<noteq> es ! j"
    using es(1) ij by (simp add: nth_eq_iff_index_eq)
  assume "x \<in> set (loop_blocks es (int k - 2) s ! i)" "y \<in> set (loop_blocks es (int k - 2) s ! i)"
    "x \<in> set (loop_blocks es (int k - 2) s ! j)" "y \<in> set (loop_blocks es (int k - 2) s ! j)"
  then have x: "x = fst (es ! i) \<or> x = snd (es ! i)" "x = fst (es ! j) \<or> x = snd (es ! j)"
    and y: "y = fst (es ! i) \<or> y = snd (es ! i)" "y = fst (es ! j) \<or> y = snd (es ! j)"
    unfolding bi bj using le ei ej ns by auto
  show "x = y"
  proof (rule ccontr)
    assume "x \<noteq> y"
    with x y ei ej have "fst (es ! i) = fst (es ! j)" "snd (es ! i) = snd (es ! j)"
      by auto
    then show False using ne by (simp add: prod_eq_iff)
  qed
qed

section \<open>The diamond graph\<close>

lemma valid_simple: "valid_adjacency A \<Longrightarrow> simple_matrix A"
  by (simp add: valid_adjacency_def)

lemma D1_valid: "valid_adjacency D1_matrix"
  by code_simp

lemma D1_created: "create_graph D1_matrix = Inr D1"
  by code_simp

lemma D1_size: "number_of_nodes D1 = 4" "length (edges D1) = 4" "length D1_matrix = 4"
  by (simp_all add: D1_def edges_def D1_matrix_def)


lemma D1_squared: "slash_H_into_G D1 D1 = Inr D2"
  by code_simp

section \<open>The vertex count of a slash product\<close>

text \<open>
  C1. For all valid \<open>G\<close> and \<open>H\<close> (graphs of symmetric 0/1 matrices with zero diagonal,
  \<open>H\<close> with at least two vertices), \<open>slash_H_into_G G H\<close> returns a graph whose number
  of vertices is \<open>comp_slash_verts |V_G| |E_G| |V_H| |E_H|\<close>, that is
  \<open>|V_G| + |E_G| * (|V_H| - 2)\<close>.
\<close>

theorem slash_vertex_count:
  assumes "valid_adjacency A" "valid_adjacency B" "2 \<le> length B"
      and "create_graph A = Inr G" "create_graph B = Inr H"
  shows "\<exists>R. slash_H_into_G G H = Inr R \<and>
           int (number_of_nodes R) =
             comp_slash_verts (int (number_of_nodes G)) (int (length (edges G)))
               (int (number_of_nodes H)) (int (length (edges H))) \<and>
           int (number_of_nodes R) =
             int (number_of_nodes G) + int (length (edges G)) * (int (number_of_nodes H) - 2)"
proof -
  have A: "simple_matrix A" "from_numpy_array A = Inr G"
    using assms(1,4) by (simp_all add: valid_simple create_graph_def)
  have B: "simple_matrix B" "from_numpy_array B = Inr H"
    using assms(2,5) by (simp_all add: valid_simple create_graph_def)
  from slash_H_into_G_simple [OF A B assms(3)]
  obtain M R where R: "slash_H_into_G G H = Inr R" "from_numpy_array M = Inr R"
    "length M = length A + length (edges G) * (length B - 2)"
    by blast
  have "number_of_nodes R = length A + length (edges G) * (length B - 2)"
    using from_numpy_array_nodes [OF R(2)] R(3) by simp
  then have "int (number_of_nodes R) =
      int (number_of_nodes G) + int (length (edges G)) * (int (number_of_nodes H) - 2)"
    using from_numpy_array_nodes [OF A(2)] from_numpy_array_nodes [OF B(2)] assms(3)
    by (simp add: of_nat_diff)
  then show ?thesis using R(1) by (simp add: comp_slash_verts_def)
qed

text \<open>
  C1 at the diamond graph: \<open>D1\<close> slashed into itself has \<open>4 + 4 * (4 - 2) = 12\<close> vertices.
\<close>

theorem slash_vertex_count_witness:
  "valid_adjacency D1_matrix \<and> 2 \<le> length D1_matrix \<and> create_graph D1_matrix = Inr D1 \<and>
   (\<exists>R. slash_H_into_G D1 D1 = Inr R \<and> int (number_of_nodes R) = comp_slash_verts 4 4 4 4 \<and>
      int (number_of_nodes R) = 12)"
proof -
  have l: "2 \<le> length D1_matrix" by (simp add: D1_size)
  show ?thesis
    using slash_vertex_count [OF D1_valid D1_valid l D1_created D1_created] D1_valid D1_created l
    by (simp add: D1_size)
qed


section \<open>The result is an undirected loop-free graph\<close>

text \<open>
  C3. When the adjacency matrices of \<open>G\<close> and \<open>H\<close> are symmetric with zero diagonal, the
  adjacency matrix of the graph that \<open>slash_H_into_G G H\<close> returns is symmetric with zero
  diagonal.
\<close>

theorem slash_H_into_G_symmetric:
  assumes "symmetric A" "zero_diagonal A" "symmetric B" "zero_diagonal B"
      and "create_graph A = Inr G" "create_graph B = Inr H"
      and "slash_H_into_G G H = Inr R"
  shows "symmetric (to_numpy_array R) \<and> zero_diagonal (to_numpy_array R)"
proof -
  have "square A" "square B"
    using assms(5,6) by (auto simp: create_graph_def from_numpy_array_def split: if_splits)
  then have A: "simple_matrix A" and B: "simple_matrix B"
    using assms(1-4) by (simp_all add: simple_matrix_def)
  have H: "to_numpy_array H = B"
    using B assms(6) to_numpy_array_simple by (simp add: create_graph_def)
  from assms(7) obtain Z A' where
    z: "zeros (comp_slash_verts (int (number_of_nodes G)) (int (length (edges G)))
          (int (number_of_nodes H) - 2 + 2) (int (length (edges H)))) = Inr Z" and
    l: "slash_loop (edges G) (int (number_of_nodes H) - 2) B (number_of_nodes G) Z = Inr A'" and
    r: "from_numpy_array A' = Inr R"
    by (auto simp: slash_H_into_G_def H Let_def split: sum.splits)
  have "simple_matrix Z" using zeros_simple [OF z] by simp
  then have "simple_matrix A'" using slash_loop_simple [OF _ B l] by simp
  then have "to_numpy_array R = A'" "simple_matrix A'"
    using to_numpy_array_simple [OF _ r] by simp_all
  then show ?thesis by (simp add: simple_matrix_def)
qed

text \<open>
  C3 at the diamond graph: the matrix of \<open>D2\<close> is symmetric with zero diagonal.
\<close>

theorem slash_H_into_G_symmetric_witness:
  "symmetric D1_matrix \<and> zero_diagonal D1_matrix \<and> create_graph D1_matrix = Inr D1 \<and>
   slash_H_into_G D1 D1 = Inr D2 \<and>
   symmetric (to_numpy_array D2) \<and> zero_diagonal (to_numpy_array D2)"
proof -
  have s: "symmetric D1_matrix" and z: "zero_diagonal D1_matrix"
    using D1_valid by (simp_all add: valid_adjacency_def simple_matrix_def)
  show ?thesis
    using slash_H_into_G_symmetric [OF s z s z D1_created D1_created D1_squared]
      s z D1_created D1_squared
    by simp
qed

section \<open>The power loop\<close>

text \<open>
  C4. For every graph \<open>G\<close> and every integer \<open>n \<le> 1\<close> the loop of \<open>slash_power\<close> runs
  zero times and \<open>slash_power G n\<close> returns \<open>G\<close> unchanged; in particular \<open>slash_power G 1\<close>
  is \<open>G\<close> itself.
\<close>

theorem slash_power_le_one: "n \<le> 1 \<Longrightarrow> slash_power G n = Inr G"
  by (simp add: slash_power_def)

text \<open>
  C4 at the diamond graph, for \<open>n = 1\<close> and \<open>n = 0\<close>.
\<close>

theorem slash_power_le_one_witness:
  "(1::int) \<le> 1 \<and> slash_power D1 1 = Inr D1 \<and> slash_power D1 0 = Inr D1"
  using slash_power_le_one [of 1 D1] slash_power_le_one [of 0 D1]
  by simp

lemma range_1_3: "[1..2] = [1, 2::int]"
  by (simp add: upto.simps)

text \<open>
  C5. For every graph \<open>G\<close>, \<open>slash_power G 3\<close> is exactly
  \<open>slash_H_into_G (slash_H_into_G G G) G\<close>: the same result, graph or exception, hence the
  same vertex count, the same edges in the same order and the same adjacency matrix.
\<close>

theorem slash_power_three:
  "slash_power G 3 =
     (case slash_H_into_G G G of Inl e \<Rightarrow> Inl e | Inr G2 \<Rightarrow> slash_H_into_G G2 G)"
  by (simp add: slash_power_def range_1_3 split: sum.splits)

section \<open>The vertex count of a slash power\<close>

lemma slash_H_into_G_graph:
  assumes A: "simple_matrix A" "from_numpy_array A = Inr G"
      and B: "simple_matrix B" "from_numpy_array B = Inr H"
      and ok: "2 \<le> length B \<or> edges G = []"
  shows "\<exists>R Gr. slash_H_into_G G H = Inr Gr \<and> simple_matrix R \<and> from_numpy_array R = Inr Gr \<and>
           int (length R) = int (length A) + int (length (edges G)) * (int (length B) - 2) \<and>
           length (edges Gr) = length (edges G) * length (edges H)"
proof (cases "2 \<le> length B")
  case True
  from slash_H_into_G_simple [OF A B True]
  obtain R Gr where R: "slash_H_into_G G H = Inr Gr" "simple_matrix R" "from_numpy_array R = Inr Gr"
    "length R = length A + length (edges G) * (length B - 2)"
    "length (edges Gr) = length (edges G) * length (edges H)"
    by blast
  have "int (length R) = int (length A) + int (length (edges G)) * (int (length B) - 2)"
    using R(4) True by (simp add: of_nat_diff)
  then show ?thesis using R by blast
next
  case False
  then have e: "edges G = []" using ok by simp
  let ?Z = "replicate (length A) (replicate (length A) (0::int))"
  have "slash_H_into_G G H = Inr (Graph (length A) [])"
    using slash_H_into_G_edgeless [OF e] from_numpy_array_nodes [OF A(2)] by simp
  moreover have "simple_matrix ?Z"
    using zeros_nat_simple(1) [OF zeros_nat] .
  moreover have "from_numpy_array ?Z = Inr (Graph (length A) [])"
    by (rule from_numpy_array_zeros)
  ultimately show ?thesis using e by (intro exI [of _ ?Z] exI [of _ "Graph (length A) []"]) (simp add: edges_def)
qed

lemma geometric_shift: "(\<Sum>j < Suc m. (x::int) ^ j) = 1 + x * (\<Sum>j < m. x ^ j)"
proof (induction m)
  case 0
  show ?case by simp
next
  case (Suc m)
  have "(\<Sum>j < Suc (Suc m). x ^ j) = (\<Sum>j < Suc m. x ^ j) + x ^ Suc m" by simp
  also have "\<dots> = 1 + x * (\<Sum>j < m. x ^ j) + x * x ^ m" using Suc.IH by simp
  also have "\<dots> = 1 + x * ((\<Sum>j < m. x ^ j) + x ^ m)" by (simp add: distrib_left)
  also have "\<dots> = 1 + x * (\<Sum>j < Suc m. x ^ j)" by simp
  finally show ?case .
qed

lemma slash_power_loop_count:
  assumes A: "simple_matrix A" "from_numpy_array A = Inr G"
  shows "simple_matrix Ai \<Longrightarrow> from_numpy_array Ai = Inr Gi \<Longrightarrow>
     2 \<le> length A \<or> (edges G = [] \<and> edges Gi = []) \<Longrightarrow>
     \<exists>R Ar. slash_power_loop G ns Gi = Inr R \<and> simple_matrix Ar \<and> from_numpy_array Ar = Inr R \<and>
       int (number_of_nodes R) =
         int (number_of_nodes Gi) + (int (number_of_nodes G) - 2) * int (length (edges Gi)) *
           (\<Sum>j < length ns. int (length (edges G)) ^ j) \<and>
       length (edges R) = length (edges Gi) * length (edges G) ^ length ns"
proof (induction ns arbitrary: Ai Gi)
  case Nil
  then show ?case by auto
next
  case (Cons i ns)
  have ok: "2 \<le> length A \<or> edges Gi = []" using Cons.prems(3) by auto
  from slash_H_into_G_graph [OF Cons.prems(1,2) A ok]
  obtain M G' where step: "slash_H_into_G Gi G = Inr G'" "simple_matrix M" "from_numpy_array M = Inr G'"
    "int (length M) = int (length Ai) + int (length (edges Gi)) * (int (length A) - 2)"
    "length (edges G') = length (edges Gi) * length (edges G)"
    by blast
  have ok': "2 \<le> length A \<or> (edges G = [] \<and> edges G' = [])"
    using Cons.prems(3) step(5) by auto
  from Cons.IH [OF step(2,3) ok']
  obtain R Ar where rest: "slash_power_loop G ns G' = Inr R" "simple_matrix Ar" "from_numpy_array Ar = Inr R"
    "int (number_of_nodes R) =
         int (number_of_nodes G') + (int (number_of_nodes G) - 2) * int (length (edges G')) *
           (\<Sum>j < length ns. int (length (edges G)) ^ j)"
    "length (edges R) = length (edges G') * length (edges G) ^ length ns"
    by blast
  have nG': "int (number_of_nodes G') = int (number_of_nodes Gi) + int (length (edges Gi)) * (int (number_of_nodes G) - 2)"
    using step(4) from_numpy_array_nodes [OF step(3)] from_numpy_array_nodes [OF Cons.prems(2)]
      from_numpy_array_nodes [OF A(2)] by simp
  have run: "slash_power_loop G (i # ns) Gi = Inr R" using step(1) rest(1) by simp
  let ?E = "int (length (edges G))"
  have sum: "(\<Sum>j < length (i # ns). ?E ^ j) = 1 + ?E * (\<Sum>j < length ns. ?E ^ j)"
    using geometric_shift [of ?E "length ns"] by simp
  have "int (number_of_nodes R) =
         int (number_of_nodes Gi) + (int (number_of_nodes G) - 2) * int (length (edges Gi)) *
           (\<Sum>j < length (i # ns). ?E ^ j)"
    unfolding sum rest(4) nG' step(5) by (simp add: algebra_simps)
  moreover have "length (edges R) = length (edges Gi) * length (edges G) ^ length (i # ns)"
    using rest(5) step(5) by simp
  ultimately show ?case using run rest(2,3) by blast
qed

lemma length_upto: "length [1..n - 1] = nat (n - 1)"
  by simp

lemma simple_small_edgeless:
  assumes "simple_matrix A" "from_numpy_array A = Inr G" "length A < 2"
  shows "edges G = []"
proof -
  have "set (edges G) = upper A" using simple_edges_set [OF assms(1,2)] .
  moreover have "upper A = {}" using assms(3) by (auto simp: upper_def)
  ultimately show ?thesis by simp
qed

lemma slash_power_count:
  assumes A: "simple_matrix A" "from_numpy_array A = Inr G" and n: "1 \<le> n"
  shows "\<exists>R. slash_power G n = Inr R \<and>
       int (number_of_nodes R) =
         2 + (int (number_of_nodes G) - 2) * (\<Sum>j < nat n. int (length (edges G)) ^ j) \<and>
       length (edges R) = length (edges G) ^ nat n"
proof -
  have ok: "2 \<le> length A \<or> (edges G = [] \<and> edges G = [])"
    using simple_small_edgeless [OF A] by (cases "2 \<le> length A") auto
  from slash_power_loop_count [OF A A ok, of "[1..n - 1]"]
  obtain R where R: "slash_power G n = Inr R"
    "int (number_of_nodes R) =
         int (number_of_nodes G) + (int (number_of_nodes G) - 2) * int (length (edges G)) *
           (\<Sum>j < nat (n - 1). int (length (edges G)) ^ j)"
    "length (edges R) = length (edges G) * length (edges G) ^ nat (n - 1)"
    unfolding slash_power_def length_upto by blast
  obtain m where m: "nat n = Suc m" "nat (n - 1) = m"
    using n by (metis Suc_nat_eq_nat_zadd1 add.commute diff_add_cancel diff_ge_0_iff_ge)
  let ?E = "int (length (edges G))"
  have "(\<Sum>j < Suc m. ?E ^ j) = 1 + ?E * (\<Sum>j < m. ?E ^ j)"
    by (rule geometric_shift)
  then have "int (number_of_nodes R) = 2 + (int (number_of_nodes G) - 2) * (\<Sum>j < nat n. ?E ^ j)"
    unfolding R(2) m by (simp add: algebra_simps)
  moreover have "length (edges R) = length (edges G) ^ nat n"
    using R(3) m by simp
  ultimately show ?thesis using R(1) by blast
qed

section \<open>Rounding to binary64\<close>

lemma bit_length_bounds: "0 < n \<Longrightarrow> 2 ^ (bit_length n - 1) \<le> n \<and> n < 2 ^ bit_length n"
proof (induction n rule: bit_length.induct)
  case (1 n)
  show ?case
  proof (cases "n div 2 = 0")
    case True
    with "1.prems" have "n = 1" by presburger
    then show ?thesis by (simp add: bit_length.simps)
  next
    case False
    then have pos: "0 < n div 2" by simp
    from "1.IH" [OF _ pos] "1.prems"
    have IH: "2 ^ (bit_length (n div 2) - 1) \<le> n div 2" "n div 2 < 2 ^ bit_length (n div 2)"
      by simp_all
    have bl: "bit_length n = Suc (bit_length (n div 2))"
      using "1.prems" by (subst bit_length.simps) simp
    have b1: "0 < bit_length (n div 2)"
      using pos by (subst bit_length.simps) simp
    have "2 ^ (bit_length n - 1) = 2 * 2 ^ (bit_length (n div 2) - 1)"
      using bl b1 by (cases "bit_length (n div 2)") simp_all
    also have "\<dots> \<le> 2 * (n div 2)" using IH(1) by simp
    also have "\<dots> \<le> n" by simp
    finally have lo: "2 ^ (bit_length n - 1) \<le> n" .
    have "n < 2 * (n div 2) + 2" by presburger
    also have "\<dots> \<le> 2 * 2 ^ bit_length (n div 2)" using IH(2) by simp
    finally have "n < 2 ^ bit_length n" using bl by simp
    with lo show ?thesis by simp
  qed
qed

lemma bit_length_le: "n < 2 ^ k \<Longrightarrow> bit_length n \<le> k"
proof (cases "n = 0")
  case True
  then show ?thesis by (simp add: bit_length.simps)
next
  case False
  assume a: "n < 2 ^ k"
  have b: "2 ^ (bit_length n - 1) \<le> n" using bit_length_bounds False by simp
  have "(2::nat) ^ (bit_length n - 1) < 2 ^ k" using b a by (rule le_less_trans)
  then have "bit_length n - 1 < k" by (rule power_less_imp_less_exp [rotated]) simp
  then show ?thesis by simp
qed

lemma bit_length_pos: "0 < n \<Longrightarrow> 0 < bit_length n"
  by (subst bit_length.simps) simp

lemma bit_length_one: "bit_length (Suc 0) = 1"
  by (simp add: bit_length.simps)

lemma ilog2_of_int:
  assumes "z \<noteq> 0"
  shows "ilog2 (of_int z) = int (bit_length (nat \<bar>z\<bar>)) - 1"
proof -
  have abs: "\<bar>of_int z :: rat\<bar> = Rat.of_int \<bar>z\<bar>" by (simp add: Rat.of_int_def)
  have q: "quotient_of \<bar>of_int z :: rat\<bar> = (\<bar>z\<bar>, 1)"
    unfolding abs by (rule quotient_of_int)
  have pos: "0 < nat \<bar>z\<bar>" using assms by simp
  let ?bl = "bit_length (nat \<bar>z\<bar>)"
  have "(2::nat) ^ (?bl - 1) \<le> nat \<bar>z\<bar>" using bit_length_bounds [OF pos] by simp
  then have "int (2 ^ (?bl - 1)) \<le> \<bar>z\<bar>" by linarith
  then have "(of_int (2 ^ (?bl - 1)) :: rat) \<le> of_int \<bar>z\<bar>"
    by (simp only: of_int_le_iff of_nat_power of_nat_numeral)
  then have le: "(2::rat) ^ (?bl - 1) \<le> \<bar>of_int z\<bar>" by simp
  have k: "0 \<le> int ?bl - 1" "nat (int ?bl - 1) = ?bl - 1"
    using bit_length_pos [OF pos] by simp_all
  have "pow2 (int ?bl - 1) \<le> \<bar>of_int z\<bar>"
    using le k by (simp add: pow2_def)
  then show ?thesis
    by (simp add: ilog2_def q bit_length_one Let_def del: of_int_abs )
qed

lemma round_half_even_of_int: "round_half_even (of_int w) = w"
  by (simp add: round_half_even_def)

lemma fl_of_int_small:
  assumes "z \<noteq> 0" "ilog2 (of_int z) \<le> 52"
  shows "fl (of_int z) = of_int z"
proof -
  define e where "e = max (ilog2 (of_int z) - 52) (- 1074)"
  define m where "m = nat (- e)"
  have "e \<le> 0" using assms(2) by (simp add: e_def)
  then have e: "e = - int m" by (simp add: m_def)
  have p: "pow2 (- int m) = 1 / 2 ^ m" by (cases "m = 0") (simp_all add: pow2_def)
  have "of_int z / (1 / 2 ^ m) = (of_int (z * 2 ^ m) :: rat)" by simp
  then have r: "round_half_even (of_int z / (1 / 2 ^ m)) = z * 2 ^ m"
    by (simp only: round_half_even_of_int)
  have "fl (of_int z) = of_int (round_half_even (of_int z / pow2 e)) * pow2 e"
    using assms(1) by (simp add: fl_def Let_def e_def)
  also have "\<dots> = of_int (z * 2 ^ m) * (1 / 2 ^ m)"
    unfolding e p r ..
  also have "\<dots> = of_int z" by simp
  finally show ?thesis .
qed

lemma fl_of_int_exact:
  assumes "\<bar>z\<bar> < 2 ^ 53"
  shows "fl (of_int z) = of_int z"
proof (cases "z = 0")
  case True
  then show ?thesis by (simp add: fl_def)
next
  case False
  have "\<bar>z\<bar> < int (2 ^ 53)" using assms by (simp only: of_nat_power of_nat_numeral)
  then have "nat \<bar>z\<bar> < 2 ^ 53" by (simp only: nat_less_iff abs_ge_zero)
  then have "bit_length (nat \<bar>z\<bar>) \<le> 53" by (rule bit_length_le)
  then have "ilog2 (of_int z) \<le> 52" using ilog2_of_int [OF False] by simp
  then show ?thesis using False by (intro fl_of_int_small)
qed


lemma round_half_even_nonzero:
  assumes "1 \<le> \<bar>y\<bar>"
  shows "round_half_even y \<noteq> 0"
proof -
  define f where "f = \<lfloor>y\<rfloor>"
  have fl: "of_int f \<le> y" "y < of_int f + 1"
    using floor_correct [of y] by (simp_all add: f_def)
  show ?thesis
  proof (cases "1 \<le> y")
    case True
    then have "1 \<le> f" by (simp add: f_def)
    then show ?thesis by (simp add: round_half_even_def Let_def f_def [symmetric])
  next
    case False
    then have y: "y \<le> - 1" using assms by linarith
    then have f: "f \<le> - 1" using fl(1) by (simp add: f_def floor_le_iff)
    have "f \<noteq> - 1" if "1 / 2 \<le> y - of_int f"
    proof
      assume "f = - 1"
      then have "- 1 / 2 \<le> y" using that by simp
      then show False using y by simp
    qed
    then show ?thesis using f
      by (auto simp: round_half_even_def Let_def f_def [symmetric])
  qed
qed

lemma pow2_pos: "0 < pow2 e"
  by (simp add: pow2_def)

lemma fl_of_int_nonzero:
  assumes "z \<noteq> 0"
  shows "fl (of_int z) \<noteq> 0"
proof -
  let ?x = "of_int z :: rat"
  define L where "L = ilog2 ?x"
  define e where "e = max (L - 52) (- 1074)"
  have pos: "0 < nat \<bar>z\<bar>" using assms by simp
  have L: "L = int (bit_length (nat \<bar>z\<bar>)) - 1" unfolding L_def using assms by (rule ilog2_of_int)
  then have L0: "0 \<le> L" using bit_length_pos [OF pos] by simp
  have one: "1 \<le> \<bar>?x\<bar>"
  proof -
    have "1 \<le> \<bar>z\<bar>" using assms by simp
    then have "(of_int 1 :: rat) \<le> of_int \<bar>z\<bar>" by (simp only: of_int_le_iff)
    then show ?thesis by simp
  qed
  have lo: "(2::rat) ^ nat L \<le> \<bar>?x\<bar>"
  proof -
    have "(2::nat) ^ (bit_length (nat \<bar>z\<bar>) - 1) \<le> nat \<bar>z\<bar>"
      using bit_length_bounds [OF pos] by simp
    moreover have "nat L = bit_length (nat \<bar>z\<bar>) - 1" using L by simp
    ultimately have "(2::nat) ^ nat L \<le> nat \<bar>z\<bar>" by simp
    then have "int (2 ^ nat L) \<le> int (nat \<bar>z\<bar>)" by (simp only: of_nat_le_iff)
    then have "int (2 ^ nat L) \<le> \<bar>z\<bar>" by simp
    then have "(of_int (int (2 ^ nat L)) :: rat) \<le> of_int \<bar>z\<bar>" by (simp only: of_int_le_iff)
    then show ?thesis by simp
  qed
  have le: "pow2 e \<le> \<bar>?x\<bar>"
  proof (cases "52 \<le> L")
    case True
    then have "e = L - 52" by (simp add: e_def)
    then have "pow2 e = 2 ^ nat (L - 52)" using True by (simp add: pow2_def)
    also have "\<dots> \<le> 2 ^ nat L" by (rule power_increasing) simp_all
    finally show ?thesis using lo by simp
  next
    case False
    then have "e < 0" using L0 by (simp add: e_def)
    then have "pow2 e = 1 / 2 ^ nat (- e)" by (simp add: pow2_def)
    also have "\<dots> \<le> 1" by simp
    finally show ?thesis using one by simp
  qed
  have "1 \<le> \<bar>?x\<bar> / pow2 e" using le pow2_pos [of e] by (simp add: le_divide_eq)
  then have "1 \<le> \<bar>?x / pow2 e\<bar>" using pow2_pos [of e] by simp
  then have "round_half_even (?x / pow2 e) \<noteq> 0" by (rule round_half_even_nonzero)
  moreover have "fl ?x = of_int (round_half_even (?x / pow2 e)) * pow2 e"
    using assms by (simp add: fl_def Let_def e_def L_def)
  ultimately show ?thesis using pow2_pos [of e] by simp
qed

lemma finite_float_of_int:
  assumes "\<bar>z\<bar> < 2 ^ 53"
  shows "finite_float (of_int z) = Inr (of_int z)"
proof -
  have "(of_int \<bar>z\<bar> :: rat) < of_int (2 ^ 53)" using assms by (simp only: of_int_less_iff)
  then have "\<bar>of_int z :: rat\<bar> < 2 ^ 53" by simp
  also have "(2::rat) ^ 53 \<le> 2 ^ 1024" by (rule power_increasing) simp_all
  finally have "\<not> 2 ^ 1024 \<le> \<bar>of_int z :: rat\<bar>" by simp
  then show ?thesis by (simp only: finite_float_def fl_of_int_exact [OF assms] if_False)
qed

lemma int_of_float_of_int: "int_of_float (of_int w) = w"
  by (simp add: int_of_float_def)

lemma closed_form_integral:
  assumes "ie \<noteq> 1"
  shows "(of_int ((iv - 2) * (ie ^ m - 1)) / of_int (ie - 1) :: rat) =
         of_int ((iv - 2) * (\<Sum>j < m. ie ^ j))"
proof -
  have "ie ^ m - 1 = (ie - 1) * (\<Sum>j < m. ie ^ j)" by (rule power_diff_1_eq)
  then have "(of_int ((iv - 2) * (ie ^ m - 1)) :: rat) =
      of_int (ie - 1) * of_int ((iv - 2) * (\<Sum>j < m. ie ^ j))"
    by (simp only: of_int_mult [symmetric]) (simp add: mult.commute mult.left_commute)
  moreover have "(of_int (ie - 1) :: rat) \<noteq> 0" using assms by simp
  ultimately show ?thesis by (metis nonzero_mult_div_cancel_left)
qed

lemma comp_slash_power_verts_exact:
  assumes "0 \<le> n" "ie \<noteq> 1" "\<bar>(iv - 2) * (\<Sum>j < nat n. ie ^ j)\<bar> < 2 ^ 53"
    "\<bar>2 + (iv - 2) * (\<Sum>j < nat n. ie ^ j)\<bar> < 2 ^ 53"
  shows "comp_slash_power_verts iv ie n = Inr (2 + (iv - 2) * (\<Sum>j < nat n. ie ^ j))"
proof -
  let ?q = "(iv - 2) * (\<Sum>j < nat n. ie ^ j)"
  have d: "int_truediv ((iv - 2) * (ie ^ nat n - 1)) (ie - 1) = Inr (of_int ?q)"
    using assms(2) by (simp only: int_truediv_def closed_form_integral [OF assms(2)]
        finite_float_of_int [OF assms(3)]) simp
  have "(2::rat) + of_int ?q = of_int (2 + ?q)" by simp
  then have "fl (2 + of_int ?q) = of_int (2 + ?q)"
    using fl_of_int_exact [OF assms(4)] by (simp only:)
  then have "int_of_float (fl (2 + of_int ?q)) = 2 + ?q"
    by (simp only: int_of_float_of_int)
  then show ?thesis
    using assms(1) by (simp only: comp_slash_power_verts_def d if_True sum.case)
qed

section \<open>The edge count of a slash product\<close>

text \<open>
  C10. For all valid \<open>G\<close> and \<open>H\<close> (graphs of symmetric 0/1 matrices with zero diagonal,
  \<open>H\<close> with at least two vertices), \<open>slash_H_into_G G H\<close> returns a graph with exactly
  \<open>|E_G| * |E_H|\<close> edges. The loop is the sequence of the assignments to its blocks
  (\<open>slash_loop_blocks\<close>); the blocks of two different edges of \<open>G\<close> have disjoint sets of
  fresh labels (the block without its first and last entry), and they share at most one
  label, so no off-diagonal entry is written by two copies of \<open>H\<close>.
\<close>

theorem slash_edge_count:
  assumes "valid_adjacency A" "valid_adjacency B" "2 \<le> length B"
      and "create_graph A = Inr G" "create_graph B = Inr H"
  shows "(\<exists>R. slash_H_into_G G H = Inr R \<and>
            length (edges R) = length (edges G) * length (edges H)) \<and>
         (\<forall>i j. i < j \<and> j < length (edges G) \<longrightarrow>
            set (butlast (tl (loop_blocks (edges G) (int (number_of_nodes H) - 2) (number_of_nodes G) ! i))) \<inter>
            set (butlast (tl (loop_blocks (edges G) (int (number_of_nodes H) - 2) (number_of_nodes G) ! j))) = {} \<and>
            (\<forall>x y. x \<in> set (loop_blocks (edges G) (int (number_of_nodes H) - 2) (number_of_nodes G) ! i) \<and>
                   y \<in> set (loop_blocks (edges G) (int (number_of_nodes H) - 2) (number_of_nodes G) ! i) \<and>
                   x \<in> set (loop_blocks (edges G) (int (number_of_nodes H) - 2) (number_of_nodes G) ! j) \<and>
                   y \<in> set (loop_blocks (edges G) (int (number_of_nodes H) - 2) (number_of_nodes G) ! j) \<longrightarrow>
                   x = y))"
proof -
  have A: "simple_matrix A" "from_numpy_array A = Inr G"
    using assms(1,4) by (simp_all add: valid_simple create_graph_def)
  have B: "simple_matrix B" "from_numpy_array B = Inr H"
    using assms(2,5) by (simp_all add: valid_simple create_graph_def)
  have nG: "number_of_nodes G = length A" using from_numpy_array_nodes [OF A(2)] .
  have nH: "number_of_nodes H = length B" using from_numpy_array_nodes [OF B(2)] .
  have es: "distinct (edges G)" "\<forall>p \<in> set (edges G). fst p < snd p \<and> snd p < length A"
    using simple_edges_distinct [OF A] simple_edges_set [OF A] by (auto simp: upper_def)
  have count: "\<exists>R. slash_H_into_G G H = Inr R \<and>
            length (edges R) = length (edges G) * length (edges H)"
    using slash_H_into_G_simple [OF A B assms(3)] by blast
  show ?thesis
    unfolding nG nH
    using count blocks_disjoint [OF assms(3) es order_refl]
    by blast
qed

text \<open>
  C10 at the diamond graph: \<open>D1\<close> slashed into itself has \<open>4 * 4\<close> edges, and the fresh labels
  of its first two blocks are disjoint.
\<close>

theorem slash_edge_count_witness:
  "valid_adjacency D1_matrix \<and> 2 \<le> length D1_matrix \<and> create_graph D1_matrix = Inr D1 \<and>
   (\<exists>R. slash_H_into_G D1 D1 = Inr R \<and> length (edges R) = 4 * 4) \<and>
   set (butlast (tl (loop_blocks (edges D1) 2 4 ! 0))) \<inter>
   set (butlast (tl (loop_blocks (edges D1) 2 4 ! 1))) = {}"
proof -
  have l: "2 \<le> length D1_matrix" by (simp add: D1_size)
  have "(0::nat) < 1 \<and> 1 < length (edges D1)" by (simp add: D1_size)
  then show ?thesis
    using slash_edge_count [OF D1_valid D1_valid l D1_created D1_created] D1_valid D1_created l
    by (simp add: D1_size)
qed

lemma D1_power_2: "slash_power D1 2 = Inr D2"
  by (simp add: slash_power_def upto.simps D1_squared)

lemma D2_size: "number_of_nodes D2 = 12" "length (edges D2) = 16"
  by (simp_all add: D2_def edges_def)

lemma bit_length_numeral:
  "bit_length (numeral (Num.Bit0 k)) = Suc (bit_length (numeral k))"
  "bit_length (numeral (Num.Bit1 k)) = Suc (bit_length (numeral k))"
  "bit_length 1 = 1"
  "bit_length (Suc 0) = 1"
  by (subst bit_length.simps, simp add: bit_length.simps)+

section \<open>Evaluating the formula\<close>

lemma quotient_of_fraction:
  "0 < b \<Longrightarrow> coprime a b \<Longrightarrow> quotient_of (of_int a / of_int b) = (a, b)"
  by (simp add: Fract_of_int_quotient [symmetric] quotient_of_Fract)

lemma round_half_even_fraction:
  assumes "0 < b"
  shows "round_half_even (of_int a / of_int b) =
     (if 2 * (a mod b) < b then a div b
      else if b < 2 * (a mod b) then a div b + 1
      else if even (a div b) then a div b else a div b + 1)"
proof -
  have f: "\<lfloor>of_int a / of_int b :: rat\<rfloor> = a div b" by (rule floor_divide_of_int_eq)
  have "(of_int a :: rat) = of_int (a div b * b + a mod b)" by simp
  then have "(of_int a :: rat) = of_int (a div b) * of_int b + of_int (a mod b)"
    by (simp only: of_int_add of_int_mult)
  then have d: "(of_int a / of_int b :: rat) - of_int (a div b) = of_int (a mod b) / of_int b"
    using assms by (simp add: field_simps)
  have lt: "(of_int (a mod b) / of_int b :: rat) < 1 / 2 \<longleftrightarrow> 2 * (a mod b) < b"
  proof -
    have "(of_int (a mod b) / of_int b :: rat) < 1 / 2 \<longleftrightarrow> (of_int (2 * (a mod b)) :: rat) < of_int b"
      using assms by (simp add: field_simps)
    then show ?thesis by (simp only: of_int_less_iff)
  qed
  have gt: "(1 / 2 :: rat) < of_int (a mod b) / of_int b \<longleftrightarrow> b < 2 * (a mod b)"
  proof -
    have "(1 / 2 :: rat) < of_int (a mod b) / of_int b \<longleftrightarrow> (of_int b :: rat) < of_int (2 * (a mod b))"
      using assms by (simp add: field_simps)
    then show ?thesis by (simp only: of_int_less_iff)
  qed
  show ?thesis
    unfolding round_half_even_def Let_def f d lt gt ..
qed

lemma q12: "quotient_of (1 / 2) = (1, 2)"
  using quotient_of_fraction [of 2 1] by simp

lemma q32: "quotient_of (3 / 2) = (3, 2)"
  using quotient_of_fraction [of 2 3] by simp

lemma fl_half: "fl (1 / 2) = 1 / 2" "fl (- (1 / 2)) = - (1 / 2)" "fl (3 / 2) = 3 / 2"
  by (simp_all add: fl_def ilog2_def q12 q32 bit_length_numeral pow2_def round_half_even_def Let_def)


lemma fl_of_int_big:
  assumes "z \<noteq> 0" "53 \<le> bit_length (nat \<bar>z\<bar>)"
  shows "fl (of_int z) =
     of_int (round_half_even (of_int z / of_int (2 ^ (bit_length (nat \<bar>z\<bar>) - 53))) *
       2 ^ (bit_length (nat \<bar>z\<bar>) - 53))"
proof -
  let ?k = "bit_length (nat \<bar>z\<bar>) - 53"
  have e: "max (ilog2 (of_int z) - 52) (- 1074) = int ?k"
    using assms(2) ilog2_of_int [OF assms(1)] by simp
  have p: "pow2 (int ?k) = of_int (2 ^ ?k)" by (simp add: pow2_def)
  have "fl (of_int z) = of_int (round_half_even (of_int z / pow2 (int ?k))) * pow2 (int ?k)"
    using assms(1) by (simp add: fl_def Let_def e)
  then show ?thesis unfolding p by simp
qed

lemma round_half_even_numeral:
  "round_half_even (numeral a / numeral b) =
     (if 2 * (numeral a mod numeral b) < (numeral b :: int) then numeral a div numeral b
      else if (numeral b :: int) < 2 * (numeral a mod numeral b) then numeral a div numeral b + 1
      else if even (numeral a div numeral b :: int) then numeral a div numeral b
      else numeral a div numeral b + 1)"
  using round_half_even_fraction [of "numeral b" "numeral a"] by simp

lemma floor_minus_one: "\<lfloor>- 1 :: rat\<rfloor> = - 1"
  using floor_of_int [of "- 1", where ?'a = rat] by simp

lemma floor_three_halves: "\<lfloor>3 / 2 :: rat\<rfloor> = 1"
  using floor_divide_of_int_eq [of 3 2, where ?'a = rat] by simp

lemma fl_big_1: "fl 25015772549499853 = 25015772549499852"
  using fl_of_int_big [of 25015772549499853]
  by (simp add: bit_length_numeral round_half_even_numeral)

lemma fl_big_2: "fl 25015772549499854 = 25015772549499856"
  using fl_of_int_big [of 25015772549499854]
  by (simp add: bit_length_numeral round_half_even_numeral)

lemma formula_3_3_35: "comp_slash_power_verts 3 3 35 = Inr 25015772549499856"
  by (simp add: comp_slash_power_verts_def int_truediv_def finite_float_def fl_big_1 fl_big_2
      int_of_float_def)

lemma float_small: "float_of_int 2 = Inr 2" "float_of_int (- 1) = Inr (- 1)" "float_of_int 1 = Inr 1"
  using finite_float_of_int [of 2] finite_float_of_int [of "- 1"] finite_float_of_int [of 1]
  by (simp_all add: float_of_int_def)

lemma formula_3_2_neg: "comp_slash_power_verts 3 2 (- 1) = Inr 1"
  by (simp add: comp_slash_power_verts_def int_pow_negative_def float_truediv_int_def
      float_small fl_half int_of_float_def floor_minus_one floor_three_halves)

lemma formula_4_4_2: "comp_slash_power_verts 4 4 2 = Inr 12"
  using comp_slash_power_verts_exact [of 2 4 4] by (simp add: eval_nat_numeral)

section \<open>The vertex count of a slash power and the formula\<close>

text \<open>
  C2. For every valid \<open>G\<close> with \<open>|E_G| \<noteq> 1\<close> and every \<open>n \<ge> 1\<close>, the number of
  vertices of \<open>slash_power G n\<close> is \<open>2 + (|V_G| - 2) * (|E_G| ^ n - 1) / (|E_G| - 1)\<close>, and
  it is the value that \<open>comp_slash_power_verts |V_G| |E_G| n\<close> returns. The second
  equation is stated for a result with fewer than \<open>2 ^ 53\<close> vertices, where the float
  division and addition of the formula are exact. That is every graph the notebook can
  build: \<open>slash_H_into_G\<close> allocates the dense \<open>N \<times> N\<close> float matrix of its result
  (\<open>np.zeros([num_verts, num_verts])\<close>), which numpy refuses long before \<open>N\<close> reaches
  \<open>2 ^ 53\<close>, so that a larger graph exists only in the model, whose \<open>zeros\<close> has no
  memory limit. (The formula alone, beyond that size, is rounded: \<open>formula_3_3_35\<close>.)
\<close>

theorem slash_power_vertex_count:
  assumes "valid_adjacency A" "create_graph A = Inr G" "1 \<le> n" "length (edges G) \<noteq> 1"
  shows "\<exists>R. slash_power G n = Inr R \<and>
     (of_nat (number_of_nodes R) :: rat) =
        2 + (of_nat (number_of_nodes G) - 2) * (of_nat (length (edges G)) ^ nat n - 1) /
              (of_nat (length (edges G)) - 1) \<and>
     (number_of_nodes R < 2 ^ 53 \<longrightarrow>
        comp_slash_power_verts (int (number_of_nodes G)) (int (length (edges G))) n =
          Inr (int (number_of_nodes R)))"
proof -
  let ?V = "int (number_of_nodes G)" and ?E = "int (length (edges G))"
  let ?q = "(?V - 2) * (\<Sum>j < nat n. ?E ^ j)"
  have A: "simple_matrix A" "from_numpy_array A = Inr G"
    using assms(1,2) by (simp_all add: valid_simple create_graph_def)
  have E: "?E \<noteq> 1" using assms(4) by simp
  from slash_power_count [OF A assms(3)]
  obtain R where R: "slash_power G n = Inr R" "int (number_of_nodes R) = 2 + ?q"
    by blast
  have "(of_int (int (number_of_nodes R)) :: rat) = 2 + of_int ?q"
    unfolding R(2) by simp
  also have "(of_int ?q :: rat) = of_int ((?V - 2) * (?E ^ nat n - 1)) / of_int (?E - 1)"
    by (rule closed_form_integral [OF E, symmetric])
  finally have formula: "(of_nat (number_of_nodes R) :: rat) =
        2 + (of_nat (number_of_nodes G) - 2) * (of_nat (length (edges G)) ^ nat n - 1) /
              (of_nat (length (edges G)) - 1)"
    by simp
  have code: "comp_slash_power_verts ?V ?E n = Inr (int (number_of_nodes R))"
    if small: "number_of_nodes R < 2 ^ 53"
  proof -
    have "int (number_of_nodes R) < int (2 ^ 53)" using small by (simp only: of_nat_less_iff)
    then have lt: "int (number_of_nodes R) < 2 ^ 53" by simp
    have q: "?q = int (number_of_nodes R) - 2" using R(2) by simp
    have "\<bar>?q\<bar> < 2 ^ 53" "\<bar>2 + ?q\<bar> < 2 ^ 53"
      unfolding q using lt by simp_all
    from comp_slash_power_verts_exact [OF _ E this] assms(3)
    show ?thesis unfolding q by simp
  qed
  show ?thesis using R(1) formula code by blast
qed

text \<open>
  C2 at the diamond graph and \<open>n = 2\<close>: 12 vertices, and the formula returns 12.
\<close>

theorem slash_power_vertex_count_witness:
  "valid_adjacency D1_matrix \<and> create_graph D1_matrix = Inr D1 \<and> (1::int) \<le> 2 \<and>
   length (edges D1) \<noteq> 1 \<and> slash_power D1 2 = Inr D2 \<and>
   (of_nat (number_of_nodes D2) :: rat) = 2 + (4 - 2) * (4 ^ 2 - 1) / (4 - 1) \<and>
   number_of_nodes D2 < 2 ^ 53 \<and> comp_slash_power_verts 4 4 2 = Inr 12"
proof -
  have n: "(1::int) \<le> 2" by simp
  have e: "length (edges D1) \<noteq> 1" by (simp add: D1_size)
  have s: "number_of_nodes D2 < 2 ^ 53" by (simp add: D2_size)
  from slash_power_vertex_count [OF D1_valid D1_created n e]
  have "(of_nat (number_of_nodes D2) :: rat) = 2 + (4 - 2) * (4 ^ 2 - 1) / (4 - 1)"
    "comp_slash_power_verts 4 4 2 = Inr 12"
    using s by (simp_all add: D1_power_2 D1_size D2_size)
  then show ?thesis using D1_valid D1_created e s D1_power_2 by simp
qed

text \<open>
  C6. For the diamond graph \<open>D1\<close> (4 vertices, 4 edges): \<open>comp_slash_verts 4 4 4 4\<close> is 12,
  \<open>comp_slash_power_verts 4 4 2\<close> returns 12, and \<open>slash_power D1 2\<close> returns a graph with
  exactly 12 vertices and 16 edges.
\<close>

theorem diamond_scenario:
  "comp_slash_verts 4 4 4 4 = 12 \<and> comp_slash_power_verts 4 4 2 = Inr 12 \<and>
   create_graph D1_matrix = Inr D1 \<and> number_of_nodes D1 = 4 \<and> length (edges D1) = 4 \<and>
   (\<exists>R. slash_power D1 2 = Inr R \<and> number_of_nodes R = 12 \<and> length (edges R) = 16)"
  using D1_created D1_power_2 formula_4_4_2
  by (simp add: comp_slash_verts_def D1_size D2_size)

section \<open>What the formula raises\<close>

lemma finite_float_cases: "finite_float x = Inl OverflowError \<or> finite_float x = Inr (fl x)"
  by (simp add: finite_float_def)

lemma fl_zero: "fl 0 = 0"
  by (simp add: fl_def)

lemma fl_one: "fl 1 = 1"
  using fl_of_int_exact [of 1] by simp

lemma float_of_int_zero: "float_of_int 0 = Inr 0"
  by (simp add: float_of_int_def finite_float_def fl_zero)

lemma float_of_int_one: "float_of_int 1 = Inr 1"
  using finite_float_of_int [of 1] by (simp add: float_of_int_def)

lemma float_of_int_cases:
  "float_of_int a = Inl OverflowError \<or> float_of_int a = Inr (fl (of_int a))"
  using finite_float_cases [of "of_int a"] by (simp add: float_of_int_def)

text \<open>
  C9. With \<open>initial_edges = 1\<close> the call of \<open>comp_slash_power_verts\<close> raises instead of
  returning a value: the division by \<open>initial_edges - 1 = 0\<close> raises ZeroDivisionError for
  every non-negative iteration number; for a negative one the conversion of a huge
  argument to float can raise OverflowError before the division is reached.
\<close>

theorem power_formula_one_edge:
  "comp_slash_power_verts initial_vertices 1 (int k) = Inl ZeroDivisionError \<and>
   (comp_slash_power_verts initial_vertices 1 n = Inl ZeroDivisionError \<or>
    comp_slash_power_verts initial_vertices 1 n = Inl OverflowError)"
proof
  show "comp_slash_power_verts initial_vertices 1 (int k) = Inl ZeroDivisionError"
    by (simp add: comp_slash_power_verts_def int_truediv_def)
  show "comp_slash_power_verts initial_vertices 1 n = Inl ZeroDivisionError \<or>
    comp_slash_power_verts initial_vertices 1 n = Inl OverflowError"
  proof (cases "0 \<le> n")
    case True
    then show ?thesis by (simp add: comp_slash_power_verts_def int_truediv_def)
  next
    case False
    have p: "int_pow_negative 1 n = Inl OverflowError \<or> int_pow_negative 1 n = Inr 1"
      using float_of_int_cases [of n]
      by (auto simp: int_pow_negative_def float_of_int_one fl_one)
    have d: "float_truediv_int x 0 = Inl ZeroDivisionError" for x
      by (simp add: float_truediv_int_def float_of_int_zero)
    show ?thesis
      using False p float_of_int_cases [of "initial_vertices - 2"]
      by (auto simp: comp_slash_power_verts_def d)
  qed
qed

text \<open>
  With \<open>initial_edges \<noteq> 1\<close> (and a nonzero base when the exponent is negative) the only
  exception that \<open>comp_slash_power_verts\<close> raises is the OverflowError of the float
  arithmetic.
\<close>

lemma power_formula_errors:
  assumes "initial_edges \<noteq> 1" "iteration_number < 0 \<longrightarrow> initial_edges \<noteq> 0"
  shows "comp_slash_power_verts initial_vertices initial_edges iteration_number = Inl OverflowError \<or>
         (\<exists>k. comp_slash_power_verts initial_vertices initial_edges iteration_number = Inr k)"
proof (cases "0 \<le> iteration_number")
  case True
  then show ?thesis
    using assms(1)
      finite_float_cases [of "of_int ((initial_vertices - 2) * (initial_edges ^ nat iteration_number - 1)) /
        of_int (initial_edges - 1)"]
    by (auto simp: comp_slash_power_verts_def int_truediv_def)
next
  case False
  then have e0: "initial_edges \<noteq> 0" using assms(2) by simp
  have x0: "fl (of_int initial_edges) \<noteq> 0" using e0 by (rule fl_of_int_nonzero)
  have y0: "fl (of_int (initial_edges - 1)) \<noteq> 0" using assms(1) by (intro fl_of_int_nonzero) simp
  have p: "int_pow_negative initial_edges iteration_number = Inl OverflowError \<or>
           (\<exists>p. int_pow_negative initial_edges iteration_number = Inr p)"
    using float_of_int_cases [of initial_edges] float_of_int_cases [of iteration_number] x0
    by (auto simp: int_pow_negative_def)
  have d: "float_truediv_int x (initial_edges - 1) = Inl OverflowError \<or>
           (\<exists>q. float_truediv_int x (initial_edges - 1) = Inr q)" for x
    using float_of_int_cases [of "initial_edges - 1"] y0
    by (auto simp: float_truediv_int_def)
  show ?thesis
  proof (cases "int_pow_negative initial_edges iteration_number")
    case (Inl e)
    then show ?thesis using p False by (simp add: comp_slash_power_verts_def)
  next
    case (Inr pw)
    show ?thesis
    proof (cases "float_of_int (initial_vertices - 2)")
      case (Inl e)
      then show ?thesis
        using float_of_int_cases [of "initial_vertices - 2"] False Inr
        by (simp add: comp_slash_power_verts_def)
    next
      case v: (Inr v)
      let ?x = "fl (v * fl (pw - 1))"
      from d [of ?x] show ?thesis
      proof
        assume "float_truediv_int ?x (initial_edges - 1) = Inl OverflowError"
        then show ?thesis using False Inr v by (simp add: comp_slash_power_verts_def)
      next
        assume "\<exists>q. float_truediv_int ?x (initial_edges - 1) = Inr q"
        then obtain q where q: "float_truediv_int ?x (initial_edges - 1) = Inr q" by blast
        show ?thesis
          using False Inr v q
          by (cases "2 ^ 1024 \<le> \<bar>?x\<bar>") (simp_all add: comp_slash_power_verts_def)
      qed
    qed
  qed
qed

section \<open>Negative exponents: rounding, magnitudes and exact dyadic values\<close>

text \<open>The binary exponent \<open>ilog2\<close> brackets its argument from below.\<close>

lemma pow2_powi: "pow2 k = 2 powi k"
  by (simp add: pow2_def power_int_def inverse_eq_divide power_one_over)

lemma pow2_mono: "i \<le> j \<Longrightarrow> pow2 i \<le> pow2 j"
  unfolding pow2_powi by (rule power_int_increasing) simp_all

lemma pow2_less_exp: "pow2 i < pow2 j \<Longrightarrow> i < j"
  using pow2_mono [of j i] by (cases "i < j") auto

lemma ilog2_lower:
  assumes "x \<noteq> 0"
  shows "pow2 (ilog2 x) \<le> \<bar>x\<bar>"
proof -
  obtain p q where pq: "quotient_of \<bar>x\<bar> = (p, q)" by (cases "quotient_of \<bar>x\<bar>")
  have q: "0 < q" using pq by (rule quotient_of_denom_pos)
  have x: "\<bar>x\<bar> = of_int p / of_int q" using pq by (rule quotient_of_div)
  have "0 < \<bar>x\<bar>" using assms by simp
  then have "0 < (of_int p :: rat) / of_int q" using x by simp
  then have "0 < (of_int p :: rat)" using q by (simp add: zero_less_divide_iff)
  then have p: "0 < p" by simp
  let ?bp = "bit_length (nat p)" and ?bq = "bit_length (nat q)"
  let ?k = "int ?bp - int ?bq"
  show ?thesis
  proof (cases "pow2 ?k \<le> \<bar>x\<bar>")
    case True
    then show ?thesis by (simp add: ilog2_def pq Let_def)
  next
    case False
    have lo: "2 ^ (?bp - 1) \<le> nat p" and hi: "nat q < 2 ^ ?bq"
      using bit_length_bounds [of "nat p"] bit_length_bounds [of "nat q"] p q by simp_all
    have bp: "0 < ?bp" using p by (intro bit_length_pos) simp
    have "int (2 ^ (?bp - 1)) \<le> int (nat p)" using lo by (simp only: of_nat_le_iff)
    then have "(of_int (int (2 ^ (?bp - 1))) :: rat) \<le> of_int p" using p by simp
    then have lo': "(2::rat) ^ (?bp - 1) \<le> of_int p" by simp
    have "int (nat q) < int (2 ^ ?bq)" using hi by (simp only: of_nat_less_iff)
    then have "(of_int q :: rat) < of_int (int (2 ^ ?bq))" using q by simp
    then have hi': "(of_int q :: rat) < 2 ^ ?bq" by simp
    have qpos: "0 < (of_int q :: rat)" using q by simp
    have "?k - 1 = int (?bp - 1) - int ?bq" using bp by simp
    then have "pow2 (?k - 1) = 2 powi (int (?bp - 1) - int ?bq)"
      by (simp only: pow2_powi)
    also have "\<dots> = 2 ^ (?bp - 1) / 2 ^ ?bq"
      by (simp add: power_int_diff)
    also have "\<dots> \<le> of_int p / 2 ^ ?bq"
      using lo' by (simp add: divide_right_mono)
    also have "\<dots> \<le> of_int p / of_int q"
      using hi' qpos p by (intro divide_left_mono) (simp_all add: less_imp_le)
    finally have "pow2 (?k - 1) \<le> \<bar>x\<bar>" using x by simp
    then show ?thesis using False by (simp add: ilog2_def pq Let_def)
  qed
qed

lemma ilog2_less:
  assumes "x \<noteq> 0" "\<bar>x\<bar> < pow2 j"
  shows "ilog2 x < j"
proof -
  have "pow2 (ilog2 x) < pow2 j" using ilog2_lower [OF assms(1)] assms(2) by simp
  then show ?thesis by (rule pow2_less_exp)
qed

text \<open>
  A dyadic rational with a numerator below \<open>2 ^ 53\<close> and an exponent of at most 1074 is a
  binary64 value, and rounding at most doubles a magnitude.
\<close>

lemma pow2_neg_nat: "pow2 (- int n) = 1 / 2 ^ n"
  by (cases "n = 0") (simp_all add: pow2_def)

lemma fl_dyadic_exact:
  assumes a: "\<bar>a\<bar> < 2 ^ 53" and k: "k \<le> 1074"
  shows "fl (of_int a / 2 ^ k) = of_int a / 2 ^ k"
proof (cases "a = 0")
  case True
  then show ?thesis by (simp add: fl_def)
next
  case False
  let ?x = "of_int a / 2 ^ k :: rat"
  have x0: "?x \<noteq> 0" using False by simp
  have "(of_int \<bar>a\<bar> :: rat) < of_int (2 ^ 53)" using a by (simp only: of_int_less_iff)
  then have "\<bar>of_int a :: rat\<bar> < 2 ^ 53" by simp
  then have "\<bar>?x\<bar> < 2 ^ 53 / 2 ^ k" by (simp add: abs_divide divide_strict_right_mono)
  also have "(2::rat) ^ 53 / 2 ^ k = 2 powi (int 53 - int k)"
    by (simp add: power_int_diff)
  finally have "\<bar>?x\<bar> < pow2 (53 - int k)" by (simp add: pow2_powi)
  then have "ilog2 ?x < 53 - int k" by (rule ilog2_less [OF x0])
  then have le: "max (ilog2 ?x - 52) (- 1074) \<le> - int k" using k by simp
  define e where "e = max (ilog2 ?x - 52) (- 1074)"
  define j where "j = nat (- int k - e)"
  have e: "e = - int (k + j)" using le by (simp add: e_def j_def)
  have p: "pow2 (- int (k + j)) = 1 / 2 ^ (k + j)"
    by (rule pow2_neg_nat)
  have "?x / (1 / 2 ^ (k + j)) = (of_int (a * 2 ^ j) :: rat)" by (simp add: power_add)
  then have r: "round_half_even (?x / (1 / 2 ^ (k + j))) = a * 2 ^ j"
    by (simp only: round_half_even_of_int)
  have "fl ?x = of_int (round_half_even (?x / pow2 e)) * pow2 e"
    using x0 by (simp add: fl_def Let_def e_def)
  also have "\<dots> = of_int (a * 2 ^ j) * (1 / 2 ^ (k + j))"
    unfolding e p r ..
  also have "\<dots> = ?x" by (simp add: power_add)
  finally show ?thesis .
qed

lemma abs_round_half_even_le: "\<bar>of_int (round_half_even y) :: rat\<bar> \<le> 2 * \<bar>y\<bar>"
proof -
  define f where "f = \<lfloor>y\<rfloor>"
  define d where "d = y - of_int f"
  have fl: "of_int f \<le> y" "y < of_int f + 1"
    using floor_correct [of y] by (simp_all add: f_def)
  have d: "0 \<le> d" "d < 1" "y = of_int f + d" using fl by (simp_all add: d_def)
  have r: "round_half_even y =
      (if d < 1 / 2 then f else if 1 / 2 < d then f + 1 else if even f then f else f + 1)"
    by (simp add: round_half_even_def Let_def f_def d_def)
  consider "0 < f" | "f = 0" | "f < 0" by linarith
  then show ?thesis
  proof cases
    case 1
    then have "1 \<le> f" by simp
    then have f1: "(1::rat) \<le> of_int f" by simp
    have "\<bar>of_int (round_half_even y) :: rat\<bar> \<le> of_int f + 1"
      using f1 by (auto simp: r)
    also have "\<dots> \<le> 2 * y" using f1 fl(1) by simp
    also have "\<dots> \<le> 2 * \<bar>y\<bar>" by simp
    finally show ?thesis .
  next
    case 2
    have rr: "round_half_even y = (if 1 / 2 < d then 1 else 0)" using 2 by (simp add: r)
    have yd: "\<bar>y\<bar> = d" using d 2 by simp
    show ?thesis unfolding rr yd using d by (cases "1 / 2 < d") simp_all
  next
    case 3
    then have "f \<le> - 1" by simp
    then have f1: "(of_int f :: rat) \<le> - 1" by (metis of_int_le_iff of_int_minus of_int_1)
    have y: "\<bar>y\<bar> = - of_int f - d" using f1 d by simp
    consider "round_half_even y = f" "d \<le> 1 / 2" | "round_half_even y = f + 1"
      unfolding r by (cases "d < 1 / 2"; cases "1 / 2 < d"; cases "even f") auto
    then show ?thesis
    proof cases
      case 1
      then show ?thesis unfolding y using f1 by simp
    next
      case 2
      have "\<bar>of_int (f + 1) :: rat\<bar> = - of_int f - 1" using f1 by simp
      then show ?thesis unfolding y 2 using f1 d(2) by simp
    qed
  qed
qed

lemma abs_fl_le: "\<bar>fl x\<bar> \<le> 2 * \<bar>x\<bar>"
proof (cases "x = 0")
  case True
  then show ?thesis by (simp add: fl_def)
next
  case False
  define e where "e = max (ilog2 x - 52) (- 1074)"
  have pe: "0 < pow2 e" by (rule pow2_pos)
  have "fl x = of_int (round_half_even (x / pow2 e)) * pow2 e"
    using False by (simp add: fl_def Let_def e_def)
  then have "\<bar>fl x\<bar> = \<bar>of_int (round_half_even (x / pow2 e)) :: rat\<bar> * pow2 e"
    using pe by (simp add: abs_mult)
  also have "\<dots> \<le> 2 * \<bar>x / pow2 e\<bar> * pow2 e"
    using abs_round_half_even_le [of "x / pow2 e"] pe by (intro mult_right_mono) simp_all
  also have "\<dots> = 2 * \<bar>x\<bar>" using pe by simp
  finally show ?thesis .
qed

lemma abs_fl_of_int_ge_one:
  assumes "z \<noteq> 0"
  shows "1 \<le> \<bar>fl (of_int z)\<bar>"
proof (cases "ilog2 (of_int z) \<le> 52")
  case True
  have "1 \<le> \<bar>z\<bar>" using assms by simp
  then have "(of_int 1 :: rat) \<le> of_int \<bar>z\<bar>" by (simp only: of_int_le_iff)
  then show ?thesis using fl_of_int_small [OF assms True] by simp
next
  case False
  define e where "e = max (ilog2 (of_int z) - 52) (- 1074)"
  have e: "0 \<le> e" using False by (simp add: e_def)
  then have pe: "1 \<le> pow2 e" by (simp add: pow2_def)
  define r where "r = round_half_even (of_int z / pow2 e)"
  have fz: "fl (of_int z) = of_int r * pow2 e"
    using assms by (simp add: fl_def Let_def e_def r_def)
  have "fl (of_int z) \<noteq> 0" using assms by (rule fl_of_int_nonzero)
  then have "r \<noteq> 0" using fz by auto
  then have "1 \<le> \<bar>r\<bar>" by simp
  then have "(of_int 1 :: rat) \<le> of_int \<bar>r\<bar>" by (simp only: of_int_le_iff)
  then have r1: "(1::rat) \<le> \<bar>of_int r\<bar>" by simp
  have "(1::rat) * 1 \<le> \<bar>of_int r\<bar> * pow2 e"
    using r1 pe by (intro mult_mono) simp_all
  then show ?thesis using pe by (simp add: fz abs_mult)
qed

text \<open>
  With a negative exponent, a base other than 0 and 1, and arguments of magnitude up to
  \<open>2 ^ 1000\<close>, no float operation of the formula overflows and no division is by zero: the
  power has magnitude at most 2, so the product stays below \<open>2 ^ 1005\<close>.
\<close>

lemma float_of_int_moderate:
  assumes "\<bar>a\<bar> \<le> 2 ^ 1000"
  shows "float_of_int a = Inr (fl (of_int a))" "\<bar>fl (of_int a)\<bar> \<le> 2 ^ 1001"
proof -
  have "(of_int \<bar>a\<bar> :: rat) \<le> of_int (2 ^ 1000)" using assms by (simp only: of_int_le_iff)
  then have "\<bar>of_int a :: rat\<bar> \<le> 2 ^ 1000" by simp
  then have "2 * \<bar>of_int a :: rat\<bar> \<le> 2 * 2 ^ 1000" by simp
  also have "(2::rat) * 2 ^ 1000 = 2 ^ 1001" by (simp only: power_Suc [symmetric]) simp
  finally have "2 * \<bar>of_int a :: rat\<bar> \<le> 2 ^ 1001" .
  then show b: "\<bar>fl (of_int a)\<bar> \<le> 2 ^ 1001"
    using abs_fl_le [of "of_int a"] by (rule order_trans [rotated])
  have "(2::rat) ^ 1001 < 2 ^ 1024" by (rule power_strict_increasing) simp_all
  then have "\<not> 2 ^ 1024 \<le> \<bar>fl (of_int a)\<bar>" using b by simp
  then show "float_of_int a = Inr (fl (of_int a))"
    by (simp only: float_of_int_def finite_float_def if_False)
qed

lemma abs_fl_bound: "\<bar>x\<bar> \<le> c \<Longrightarrow> \<bar>fl x\<bar> \<le> 2 * c"
  using abs_fl_le [of x] by simp

lemma one_over_le_one: "(1::rat) \<le> a \<Longrightarrow> 1 / a \<le> 1"
  by (simp add: divide_le_eq_1)

lemma power_formula_moderate:
  assumes ie: "initial_edges \<noteq> 1" "initial_edges \<noteq> 0" and n: "iteration_number < 0"
      and b: "\<bar>initial_vertices - 2\<bar> \<le> 2 ^ 1000" "\<bar>initial_edges\<bar> < 2 ^ 1000"
        "\<bar>iteration_number\<bar> \<le> 2 ^ 1000"
  shows "\<exists>k. comp_slash_power_verts initial_vertices initial_edges iteration_number = Inr k"
proof -
  let ?x = "fl (of_int initial_edges)"
  let ?m = "nat (- \<lfloor>fl (of_int iteration_number)\<rfloor>)"
  let ?p = "fl (1 / ?x ^ ?m)"
  let ?v = "fl (of_int (initial_vertices - 2))"
  let ?w = "fl (of_int (initial_edges - 1))"
  let ?t = "fl (?v * fl (?p - 1))"
  have fe: "float_of_int initial_edges = Inr ?x"
    using b(2) by (intro float_of_int_moderate) simp
  have fn: "float_of_int iteration_number = Inr (fl (of_int iteration_number))"
    using b(3) by (rule float_of_int_moderate)
  have fv: "float_of_int (initial_vertices - 2) = Inr ?v" and bv: "\<bar>?v\<bar> \<le> 2 ^ 1001"
    using b(1) by (rule float_of_int_moderate)+
  have "\<bar>initial_edges - 1\<bar> \<le> 2 ^ 1000" using b(2) by simp
  then have fw: "float_of_int (initial_edges - 1) = Inr ?w"
    by (rule float_of_int_moderate)
  have x0: "?x \<noteq> 0" using ie(2) by (rule fl_of_int_nonzero)
  have w0: "?w \<noteq> 0" using ie(1) by (intro fl_of_int_nonzero) simp
  have x1: "1 \<le> \<bar>?x\<bar>" using ie(2) by (rule abs_fl_of_int_ge_one)
  have pw: "int_pow_negative initial_edges iteration_number = Inr ?p"
    using x0 by (simp add: int_pow_negative_def fe fn)
  have dv: "float_truediv_int ?t (initial_edges - 1) = Inr (fl (?t / ?w))"
    using w0 by (simp add: float_truediv_int_def fw)
  have "1 \<le> \<bar>?x\<bar> ^ ?m" using x1 by (rule one_le_power)
  then have "1 / \<bar>?x\<bar> ^ ?m \<le> 1" by (rule one_over_le_one)
  then have "\<bar>1 / ?x ^ ?m\<bar> \<le> 1" by (simp add: power_abs)
  then have "\<bar>?p\<bar> \<le> 2 * 1" by (rule abs_fl_bound)
  then have "\<bar>?p - 1\<bar> \<le> 3" by simp
  then have "\<bar>fl (?p - 1)\<bar> \<le> 2 * 3" by (rule abs_fl_bound)
  then have "\<bar>fl (?p - 1)\<bar> \<le> 6" by simp
  then have "\<bar>?v\<bar> * \<bar>fl (?p - 1)\<bar> \<le> 2 ^ 1001 * 6"
    using bv by (intro mult_mono) simp_all
  then have "\<bar>?v * fl (?p - 1)\<bar> \<le> 2 ^ 1001 * 6" by (simp only: abs_mult)
  then have "\<bar>?t\<bar> \<le> 2 * (2 ^ 1001 * 6)" by (rule abs_fl_bound)
  also have "\<dots> < 2 ^ 1001 * 2 ^ 4" by simp
  also have "\<dots> = (2::rat) ^ 1005" by (simp only: power_add [symmetric]) simp
  also have "\<dots> < 2 ^ 1024" by (rule power_strict_increasing) simp_all
  finally have ok: "\<not> 2 ^ 1024 \<le> \<bar>?t\<bar>" by simp
  have "comp_slash_power_verts initial_vertices initial_edges iteration_number =
      Inr (int_of_float (fl (2 + fl (?t / ?w))))"
    using n ok by (simp only: comp_slash_power_verts_def pw fv dv sum.case) simp
  then show ?thesis by blast
qed

text \<open>
  With base 2 and exponent \<open>-m\<close> every intermediate value of the formula is a dyadic
  rational with denominator \<open>2 ^ m\<close>; while the numerators stay below \<open>2 ^ 53\<close> every float
  operation is exact, and the function returns \<open>int\<close> of the exact closed form.
\<close>

lemma abs_of_int_less: "\<bar>z\<bar> < 2 ^ 53 \<Longrightarrow> \<bar>of_int z :: rat\<bar> < 2 ^ 53"
proof -
  assume "\<bar>z\<bar> < 2 ^ 53"
  then have "(of_int \<bar>z\<bar> :: rat) < of_int (2 ^ 53)" by (simp only: of_int_less_iff)
  then show ?thesis by simp
qed

lemma dyadic_finite:
  assumes "\<bar>a\<bar> < 2 ^ 53"
  shows "\<not> 2 ^ 1024 \<le> \<bar>of_int a / 2 ^ k :: rat\<bar>"
proof -
  have "\<bar>of_int a / 2 ^ k :: rat\<bar> = \<bar>of_int a\<bar> / 2 ^ k" by (simp add: abs_divide)
  also have "\<dots> \<le> \<bar>of_int a\<bar> / 1" by (rule divide_left_mono) simp_all
  also have "\<dots> = \<bar>of_int a\<bar>" by simp
  also have "\<dots> < 2 ^ 53" using assms by (rule abs_of_int_less)
  also have "(2::rat) ^ 53 \<le> 2 ^ 1024" by (rule power_increasing) simp_all
  finally show ?thesis by simp
qed

lemma closed_form_dyadic:
  "closed_form iv 2 (- int m) = of_int (2 * 2 ^ m + (iv - 2) * (1 - 2 ^ m)) / 2 ^ m"
proof -
  have "(2::rat) powi (- int m) = 1 / 2 ^ m"
    by (simp add: power_int_minus inverse_eq_divide)
  then have "closed_form iv 2 (- int m) = 2 + (of_int iv - 2) * (1 / 2 ^ m - 1)"
    by (simp add: closed_form_def)
  also have "\<dots> = of_int (2 * 2 ^ m + (iv - 2) * (1 - 2 ^ m)) / 2 ^ m"
    by (simp add: field_simps)
  finally show ?thesis .
qed

lemma power_formula_dyadic:
  assumes m: "1 \<le> m" and b: "(\<bar>iv - 2\<bar> + 2) * 2 ^ m < 2 ^ 53"
  shows "comp_slash_power_verts iv 2 (- int m) = Inr (int_of_float (closed_form iv 2 (- int m)))"
proof -
  define N where "N = (iv - 2) * (1 - 2 ^ m)"
  define X where "X = (of_int N / 2 ^ m :: rat)"
  have p1: "(1::int) \<le> 2 ^ m" by simp
  have p2: "(2::int) * 1 \<le> 2 * 2 ^ m" by simp
  have "(2::int) ^ m \<le> (\<bar>iv - 2\<bar> + 2) * 2 ^ m" by simp
  then have pm: "(2::int) ^ m < 2 ^ 53" using b by linarith
  have m53: "m < 53" by (rule power_less_imp_less_exp [of 2, OF _ pm]) simp
  then have mk: "m \<le> 1074" by simp
  have "\<bar>iv - 2\<bar> * 1 \<le> \<bar>iv - 2\<bar> * 2 ^ m" by (rule mult_left_mono) simp_all
  also have "\<dots> \<le> (\<bar>iv - 2\<bar> + 2) * 2 ^ m" by (simp add: algebra_simps)
  finally have bv: "\<bar>iv - 2\<bar> < 2 ^ 53" using b by simp
  have "\<bar>1 - (2::int) ^ m\<bar> \<le> 2 ^ m" by simp
  then have "\<bar>iv - 2\<bar> * \<bar>1 - (2::int) ^ m\<bar> \<le> \<bar>iv - 2\<bar> * 2 ^ m"
    by (rule mult_left_mono) simp
  then have N1: "\<bar>N\<bar> \<le> \<bar>iv - 2\<bar> * 2 ^ m" by (simp only: N_def abs_mult)
  also have "\<dots> \<le> (\<bar>iv - 2\<bar> + 2) * 2 ^ m" by (simp add: algebra_simps)
  finally have bN: "\<bar>N\<bar> < 2 ^ 53" using b by simp
  have "\<bar>2 * 2 ^ m + N\<bar> \<le> 2 * 2 ^ m + \<bar>N\<bar>"
    using abs_triangle_ineq [of "2 * 2 ^ m" N] by simp
  also have "\<dots> \<le> 2 * 2 ^ m + \<bar>iv - 2\<bar> * 2 ^ m" using N1 by simp
  also have "\<dots> = (\<bar>iv - 2\<bar> + 2) * 2 ^ m" by (simp add: algebra_simps)
  finally have bS: "\<bar>2 * 2 ^ m + N\<bar> < 2 ^ 53" using b by simp
  have b1: "\<bar>1 - (2::int) ^ m\<bar> < 2 ^ 53" using pm by simp
  have bm: "\<bar>- int m\<bar> < 2 ^ 53" using m53 by simp
  have fe: "float_of_int 2 = Inr 2"
    using finite_float_of_int [of 2] by (simp add: float_of_int_def)
  have fn: "float_of_int (- int m) = Inr (of_int (- int m))"
    using finite_float_of_int [OF bm] by (simp only: float_of_int_def)
  have fv: "float_of_int (iv - 2) = Inr (of_int (iv - 2))"
    using finite_float_of_int [OF bv] by (simp only: float_of_int_def)
  have "fl (of_int 1 / 2 ^ m) = of_int 1 / 2 ^ m"
    by (rule fl_dyadic_exact [OF _ mk]) simp
  then have e1: "fl (1 / 2 ^ m) = 1 / 2 ^ m" by simp
  have "nat (- \<lfloor>of_int (- int m) :: rat\<rfloor>) = m"
    by (simp only: floor_of_int minus_minus nat_int)
  then have pw: "int_pow_negative 2 (- int m) = Inr (1 / 2 ^ m)"
    by (simp add: int_pow_negative_def fe fn e1 del: of_int_minus of_int_of_nat_eq)
  have "(1 / 2 ^ m - 1 :: rat) = of_int (1 - 2 ^ m) / 2 ^ m" by (simp add: field_simps)
  moreover have "fl (of_int (1 - 2 ^ m) / 2 ^ m) = of_int (1 - 2 ^ m) / 2 ^ m"
    by (rule fl_dyadic_exact [OF b1 mk])
  ultimately have e2: "fl (1 / 2 ^ m - 1) = of_int (1 - 2 ^ m) / 2 ^ m" by (simp only:)
  have eX: "fl X = X" unfolding X_def by (rule fl_dyadic_exact [OF bN mk])
  have "of_int (iv - 2) * (of_int (1 - 2 ^ m) / 2 ^ m) = X" by (simp add: X_def N_def)
  then have e3: "fl (of_int (iv - 2) * fl (1 / 2 ^ m - 1)) = X" by (simp only: e2 eX)
  have dv: "float_truediv_int X 1 = Inr X"
    by (simp add: float_truediv_int_def float_of_int_one eX)
  have ok: "\<not> 2 ^ 1024 \<le> \<bar>X\<bar>" unfolding X_def using bN by (rule dyadic_finite)
  have "2 + X = of_int (2 * 2 ^ m + N) / 2 ^ m" by (simp add: X_def field_simps)
  moreover have "fl (of_int (2 * 2 ^ m + N) / 2 ^ m) = of_int (2 * 2 ^ m + N) / 2 ^ m"
    by (rule fl_dyadic_exact [OF bS mk])
  ultimately have e4: "fl (2 + X) = of_int (2 * 2 ^ m + N) / 2 ^ m" by (simp only:)
  have cf: "closed_form iv 2 (- int m) = of_int (2 * 2 ^ m + N) / 2 ^ m"
    unfolding N_def by (rule closed_form_dyadic)
  have neg: "\<not> 0 \<le> - int m" using m by simp
  have one: "(2::int) - 1 = 1" by simp
  show ?thesis
    by (simp only: comp_slash_power_verts_def neg if_False pw fv sum.case e3 one dv ok e4 cf)
qed

lemma closed_form_dyadic_fractional:
  assumes m: "1 \<le> m" and iv: "odd iv"
  shows "closed_form iv 2 (- int m) \<notin> \<int>"
proof
  assume "closed_form iv 2 (- int m) \<in> \<int>"
  then obtain j where "closed_form iv 2 (- int m) = of_int j" by (auto elim: Ints_cases)
  then have "(of_int (2 * 2 ^ m + (iv - 2) * (1 - 2 ^ m)) / 2 ^ m :: rat) = of_int j"
    by (simp only: closed_form_dyadic)
  then have "(of_int (2 * 2 ^ m + (iv - 2) * (1 - 2 ^ m)) :: rat) = of_int (j * 2 ^ m)"
    by (simp add: field_simps)
  then have eq: "2 * 2 ^ m + (iv - 2) * (1 - 2 ^ m) = j * 2 ^ m"
    by (simp only: of_int_eq_iff)
  have e: "even ((2::int) ^ m)" using m by simp
  then have "odd (1 - (2::int) ^ m)" by simp
  then have "odd ((iv - 2) * (1 - 2 ^ m))" using iv by simp
  then have "odd (2 * 2 ^ m + (iv - 2) * (1 - 2 ^ m))" by simp
  moreover have "even (j * 2 ^ m)" using e by simp
  ultimately show False using eq by simp
qed

lemma closed_form_nonneg_integral:
  assumes "0 \<le> n" "ie \<noteq> 1"
  shows "closed_form iv ie n \<in> \<int>"
proof -
  have "(of_int ie :: rat) powi n = of_int ie ^ nat n" using assms(1) by (simp add: power_int_def)
  then have "closed_form iv ie n =
      2 + of_int ((iv - 2) * (ie ^ nat n - 1)) / of_int (ie - 1)"
    by (simp add: closed_form_def)
  also have "\<dots> = 2 + of_int ((iv - 2) * (\<Sum>j < nat n. ie ^ j))"
    by (simp only: closed_form_integral [OF assms(2)])
  also have "\<dots> = of_int (2 + (iv - 2) * (\<Sum>j < nat n. ie ^ j))" by simp
  finally show ?thesis by (simp only: Ints_of_int)
qed

lemma closed_form_7_2_neg: "closed_form 7 2 (- 1) = - (1 / 2)"
  by (simp add: closed_form_def power_int_minus)

lemma ceiling_minus_half: "\<lceil>- (1 / 2) :: rat\<rceil> = 0"
  by (simp add: ceiling_eq_iff)

text \<open>
  C7, as the code has it. \<open>comp_slash_power_verts\<close> has no integrality check and reports
  no non-integral value of the closed form. Such a value arises only for a negative
  iteration number (first part). There, for every base other than 0 and 1 and arguments
  of magnitude up to \<open>2 ^ 1000\<close>, the function raises nothing at all and returns an int
  (second part); for \<open>initial_edges \<noteq> 1\<close> in general the only exception is the
  OverflowError of the float arithmetic (third part). The int returned is the float
  result truncated toward zero: for base 2, exponent \<open>-m\<close> and
  \<open>(|initial_vertices - 2| + 2) * 2 ^ m < 2 ^ 53\<close>, where the float arithmetic is exact, it
  is the closed form itself rounded toward zero, and the closed form is not an integer
  whenever \<open>initial_vertices\<close> is odd (fourth part).
\<close>

theorem power_formula_unchecked:
  "(initial_edges \<noteq> 1 \<and>
      closed_form initial_vertices initial_edges iteration_number \<notin> \<int> \<longrightarrow>
      iteration_number < 0) \<and>
   (initial_edges \<noteq> 1 \<and> initial_edges \<noteq> 0 \<and> iteration_number < 0 \<and>
      \<bar>initial_vertices - 2\<bar> \<le> 2 ^ 1000 \<and> \<bar>initial_edges\<bar> < 2 ^ 1000 \<and>
      \<bar>iteration_number\<bar> \<le> 2 ^ 1000 \<longrightarrow>
      (\<exists>k. comp_slash_power_verts initial_vertices initial_edges iteration_number = Inr k)) \<and>
   (initial_edges \<noteq> 1 \<and> (iteration_number < 0 \<longrightarrow> initial_edges \<noteq> 0) \<longrightarrow>
      comp_slash_power_verts initial_vertices initial_edges iteration_number = Inl OverflowError \<or>
      (\<exists>k. comp_slash_power_verts initial_vertices initial_edges iteration_number = Inr k)) \<and>
   (1 \<le> m \<and> (\<bar>initial_vertices - 2\<bar> + 2) * 2 ^ m < 2 ^ 53 \<longrightarrow>
      comp_slash_power_verts initial_vertices 2 (- int m) =
        Inr (if 0 \<le> closed_form initial_vertices 2 (- int m)
             then \<lfloor>closed_form initial_vertices 2 (- int m)\<rfloor>
             else \<lceil>closed_form initial_vertices 2 (- int m)\<rceil>) \<and>
      (odd initial_vertices \<longrightarrow> closed_form initial_vertices 2 (- int m) \<notin> \<int>))"
proof (intro conjI impI)
  assume "initial_edges \<noteq> 1 \<and>
    closed_form initial_vertices initial_edges iteration_number \<notin> \<int>"
  then show "iteration_number < 0"
    using closed_form_nonneg_integral [of iteration_number initial_edges initial_vertices]
    by (cases "0 \<le> iteration_number") simp_all
next
  assume "initial_edges \<noteq> 1 \<and> initial_edges \<noteq> 0 \<and> iteration_number < 0 \<and>
      \<bar>initial_vertices - 2\<bar> \<le> 2 ^ 1000 \<and> \<bar>initial_edges\<bar> < 2 ^ 1000 \<and>
      \<bar>iteration_number\<bar> \<le> 2 ^ 1000"
  then show "\<exists>k. comp_slash_power_verts initial_vertices initial_edges iteration_number = Inr k"
    using power_formula_moderate [where initial_edges = initial_edges
        and iteration_number = iteration_number and initial_vertices = initial_vertices]
    by blast
next
  assume "initial_edges \<noteq> 1 \<and> (iteration_number < 0 \<longrightarrow> initial_edges \<noteq> 0)"
  then show "comp_slash_power_verts initial_vertices initial_edges iteration_number = Inl OverflowError \<or>
      (\<exists>k. comp_slash_power_verts initial_vertices initial_edges iteration_number = Inr k)"
    using power_formula_errors [where initial_edges = initial_edges
        and iteration_number = iteration_number and initial_vertices = initial_vertices]
    by blast
next
  assume "1 \<le> m \<and> (\<bar>initial_vertices - 2\<bar> + 2) * 2 ^ m < 2 ^ 53"
  then have "comp_slash_power_verts initial_vertices 2 (- int m) =
      Inr (int_of_float (closed_form initial_vertices 2 (- int m)))"
    using power_formula_dyadic [where m = m and iv = initial_vertices] by blast
  then show "comp_slash_power_verts initial_vertices 2 (- int m) =
        Inr (if 0 \<le> closed_form initial_vertices 2 (- int m)
             then \<lfloor>closed_form initial_vertices 2 (- int m)\<rfloor>
             else \<lceil>closed_form initial_vertices 2 (- int m)\<rceil>)"
    by (simp only: int_of_float_def)
next
  assume "1 \<le> m \<and> (\<bar>initial_vertices - 2\<bar> + 2) * 2 ^ m < 2 ^ 53" "odd initial_vertices"
  then show "closed_form initial_vertices 2 (- int m) \<notin> \<int>"
    using closed_form_dyadic_fractional [where m = m and iv = initial_vertices] by blast
qed

text \<open>
  C7 at \<open>(7, 2, -1)\<close>: the closed form is \<open>-1/2\<close>, and 0 is returned (truncation toward
  zero, where the floor would be \<open>-1\<close>).
\<close>

theorem power_formula_unchecked_witness:
  "(2::int) \<noteq> 1 \<and> (2::int) \<noteq> 0 \<and> (- 1 :: int) < 0 \<and>
   \<bar>(7::int) - 2\<bar> \<le> 2 ^ 1000 \<and> \<bar>2::int\<bar> < 2 ^ 1000 \<and> \<bar>- 1 :: int\<bar> \<le> 2 ^ 1000 \<and>
   (1::nat) \<le> 1 \<and> (\<bar>(7::int) - 2\<bar> + 2) * 2 ^ 1 < 2 ^ 53 \<and> odd (7::int) \<and>
   closed_form 7 2 (- 1) = - (1 / 2) \<and> closed_form 7 2 (- 1) \<notin> \<int> \<and>
   comp_slash_power_verts 7 2 (- 1) = Inr 0"
  using power_formula_unchecked [where initial_vertices = 7 and initial_edges = 2
      and iteration_number = "- 1" and m = 1]
  by (simp add: closed_form_7_2_neg ceiling_minus_half)

lemma three_halves_fraction: "(3 / 2 :: rat) \<notin> \<int>"
proof
  assume "(3 / 2 :: rat) \<in> \<int>"
  then obtain k :: int where "(3 / 2 :: rat) = of_int k" by (auto elim: Ints_cases)
  then have "(of_int 3 :: rat) = of_int (2 * k)" by simp
  then have "3 = 2 * k" by (simp only: of_int_eq_iff)
  then show False by presburger
qed

text \<open>
  C7 as stated fails at \<open>(3, 2, -1)\<close>: the closed form is \<open>3 / 2\<close>, not an integer, and the
  function returns 1 without any error.
\<close>

theorem power_formula_unchecked_counterexample:
  "comp_slash_power_verts 3 2 (- 1) = Inr 1 \<and>
   (2 + (3 - 2) * (2 powi (- 1) - 1) / (2 - 1) :: rat) = 3 / 2 \<and> (3 / 2 :: rat) \<notin> \<int>"
  using formula_3_2_neg three_halves_fraction by (simp add: power_int_minus)

section \<open>A spliced graph with fewer than two vertices\<close>

lemma ix_assign_error: "ix_assign A b M = Inl e \<Longrightarrow> e = ValueError \<or> e = IndexError"
  by (auto simp: ix_assign_def split: if_splits)

lemma ix_assign_out_of_range:
  "x \<in> set b \<Longrightarrow> length A \<le> x \<Longrightarrow> \<exists>e. ix_assign A b M = Inl e"
  by (auto simp: ix_assign_def)

lemma block_indices_endpoints:
  "fst edge \<in> set (block_indices edge s Hv)" "snd edge \<in> set (block_indices edge s Hv)"
  by (auto simp: block_indices_def ordered_edge_def)

lemma slash_loop_out_of_range:
  "p \<in> set es \<Longrightarrow> length A \<le> fst p \<or> length A \<le> snd p \<Longrightarrow>
   slash_loop es Hv M s A = Inl ValueError \<or> slash_loop es Hv M s A = Inl IndexError"
proof (induction es arbitrary: s A)
  case Nil
  then show ?case by simp
next
  case (Cons e es)
  show ?case
  proof (cases "ix_assign A (block_indices e s Hv) M")
    case (Inl err)
    then show ?thesis using ix_assign_error [OF Inl] by auto
  next
    case (Inr A')
    have "p \<noteq> e"
    proof
      assume "p = e"
      then obtain x where x: "x \<in> set (block_indices e s Hv)" "length A \<le> x"
        using Cons.prems(2) block_indices_endpoints by blast
      show False using ix_assign_out_of_range [OF x, of M] Inr by simp
    qed
    then have "p \<in> set es" using Cons.prems(1) by simp
    moreover have "length A' \<le> fst p \<or> length A' \<le> snd p"
      using Cons.prems(2) ix_assign_length [OF Inr] by simp
    ultimately show ?thesis using Cons.IH Inr by simp
  qed
qed

text \<open>
  C8, as the code has it. \<open>slash_H_into_G\<close> does not check the number of vertices of
  \<open>H\<close>. With fewer than two vertices in \<open>H\<close> the output matrix has fewer rows than \<open>G\<close>
  has vertices as soon as \<open>G\<close> has an edge, so for every \<open>G\<close> with an edge at its
  highest-numbered vertex the call fails inside numpy with ValueError or IndexError and
  produces no graph.
\<close>

theorem slash_small_H_fails:
  assumes "number_of_nodes H < 2" "p \<in> set (edges G)"
      and "number_of_nodes G \<le> Suc (max (fst p) (snd p))"
  shows "slash_H_into_G G H = Inl ValueError \<or> slash_H_into_G G H = Inl IndexError"
proof -
  let ?num = "comp_slash_verts (int (number_of_nodes G)) (int (length (edges G)))
      (int (number_of_nodes H) - 2 + 2) (int (length (edges H)))"
  have e: "1 \<le> int (length (edges G))" using assms(2) by (cases "edges G") auto
  have h: "int (number_of_nodes H) - 2 \<le> - 1" using assms(1) by simp
  then have "int (length (edges G)) * (int (number_of_nodes H) - 2) \<le>
      1 * (int (number_of_nodes H) - 2)"
    using e by (intro mult_right_mono_neg) simp_all
  also have "\<dots> = int (number_of_nodes H) - 2" by simp
  also have "\<dots> \<le> - 1" by (rule h)
  finally have "int (length (edges G)) * (int (number_of_nodes H) - 2) \<le> - 1" .
  then have num: "?num \<le> int (number_of_nodes G) - 1"
    by (simp add: comp_slash_verts_def)
  show ?thesis
  proof (cases "zeros ?num")
    case (Inl e)
    then have "e = ValueError" by (auto simp: zeros_def split: if_splits)
    then show ?thesis using Inl by (simp add: slash_H_into_G_def Let_def)
  next
    case (Inr Z)
    then have "length Z = nat ?num" by (auto simp: zeros_def split: if_splits)
    then have "length Z \<le> max (fst p) (snd p)" using num assms(3) by linarith
    then have "length Z \<le> fst p \<or> length Z \<le> snd p" by (simp add: le_max_iff_disj)
    then have "slash_loop (edges G) (int (number_of_nodes H) - 2) (to_numpy_array H)
          (number_of_nodes G) Z = Inl ValueError \<or>
        slash_loop (edges G) (int (number_of_nodes H) - 2) (to_numpy_array H)
          (number_of_nodes G) Z = Inl IndexError"
      by (rule slash_loop_out_of_range [OF assms(2)])
    then show ?thesis using Inr by (auto simp: slash_H_into_G_def Let_def)
  qed
qed

text \<open>
  C8 at the diamond graph and the one-vertex graph.
\<close>

theorem slash_small_H_fails_witness:
  "number_of_nodes (Graph 1 []) < 2 \<and> (2, 3) \<in> set (edges D1) \<and>
   number_of_nodes D1 \<le> Suc (max 2 3) \<and> create_graph [[0]] = Inr (Graph 1 []) \<and>
   (slash_H_into_G D1 (Graph 1 []) = Inl ValueError \<or>
    slash_H_into_G D1 (Graph 1 []) = Inl IndexError)"
proof -
  have h: "number_of_nodes (Graph 1 []) < 2" by simp
  have p: "(2, 3) \<in> set (edges D1)" by (simp add: D1_def edges_def)
  have n: "number_of_nodes D1 \<le> Suc (max (fst (2::nat, 3::nat)) (snd (2::nat, 3::nat)))"
    by (simp add: D1_size)
  have c: "create_graph [[0]] = Inr (Graph 1 [])" by code_simp
  show ?thesis
    using slash_small_H_fails [OF h p n] h p c by (simp add: D1_size)
qed

text \<open>
  C8 as stated fails: with the one-vertex graph as \<open>H\<close>, a \<open>G\<close> without edges is returned
  unchanged, and the path \<open>0 - 1\<close> with an isolated vertex 2 yields the edgeless graph on
  two vertices; no exception is raised.
\<close>

theorem slash_small_H_counterexample:
  "create_graph [[0]] = Inr (Graph 1 []) \<and> number_of_nodes (Graph 1 []) < 2 \<and>
   slash_H_into_G (Graph 1 []) (Graph 1 []) = Inr (Graph 1 []) \<and>
   create_graph [[0, 1, 0], [1, 0, 0], [0, 0, 0]] = Inr (Graph 3 [((0, 1), 1)]) \<and>
   slash_H_into_G (Graph 3 [((0, 1), 1)]) (Graph 1 []) = Inr (Graph 2 [])"
  by code_simp

end
